theory Spec2Isabelle
  imports Main "HOL-Library.Word"
begin

section \<open>The witness lock-order verifier: data model\<close>

text \<open>
  The verifier is the second half of \<^verbatim>\<open>src/sys/dev/hme/if_hme.c\<close> (from the comment
  "Implementation of the `witness' lock verifier" on).  Pointers to witnesses are indices
  into the array \<^verbatim>\<open>w_data\<close>, pointers to lock objects are addresses (\<open>nat\<close>), a null
  pointer is \<open>None\<close>.  The header \<^verbatim>\<open>sys/lock.h\<close> (the declarations of
  \<^verbatim>\<open>struct lock_object\<close>, \<^verbatim>\<open>struct lock_class\<close>, \<^verbatim>\<open>struct lock_list_entry\<close> and of the
  flag bits) is not part of the sources; a flag word is modelled as a record with one
  boolean per flag bit the verifier tests.  The counters \<^verbatim>\<open>w_refcount\<close>,
  \<^verbatim>\<open>lock_cur_cnt\<close> and \<^verbatim>\<open>lock_max_cnt\<close> are 32-bit words.
\<close>

record lc_flagset =
  LC_SLEEPLOCK :: bool
  LC_SPINLOCK :: bool
  LC_SLEEPABLE :: bool
  LC_RECURSABLE :: bool

text \<open>
  A lock class is an immutable descriptor.  A pointer to one is modelled by the descriptor
  together with its address \<open>lc_addr\<close>; where the source compares two such pointers the
  model compares the addresses.
\<close>

record lock_class =
  lc_addr :: nat
  lc_name :: string
  lc_flags :: lc_flagset

record lo_flagset =
  LO_INITIALIZED :: bool
  LO_WITNESS :: bool
  LO_RECURSABLE :: bool
  LO_SLEEPABLE :: bool
  LO_LOCKED :: bool
  LO_RECURSED :: bool

record lock_object =
  lo_class :: lock_class
  lo_name :: string
  lo_file :: "string option"
  lo_line :: int
  lo_flags :: lo_flagset
  lo_witness :: "nat option"

text \<open>
  \<^verbatim>\<open>struct witness\<close>.  The chain of \<^verbatim>\<open>witness_child_list_entry\<close> chunks hanging off
  \<^verbatim>\<open>w_children\<close> is owned by its witness alone, so it is modelled by value: the list of
  its chunks in chain order, each chunk the list of its first \<^verbatim>\<open>wcl_count\<close> children.
\<close>

record witness =
  w_name :: "string option"
  w_class :: "lock_class option"
  w_children :: "nat list list"
  w_file :: "string option"
  w_line :: int
  w_level :: nat
  w_refcount :: "32 word"
  w_Giant_squawked :: bool
  w_other_squawked :: bool
  w_same_squawked :: bool

text \<open>What \<^verbatim>\<open>bzero\<close> leaves in a \<^verbatim>\<open>struct witness\<close>.\<close>

definition zero_witness :: witness where
  "zero_witness = \<lparr> w_name = None, w_class = None, w_children = [], w_file = None,
     w_line = 0, w_level = 0, w_refcount = 0, w_Giant_squawked = False,
     w_other_squawked = False, w_same_squawked = False \<rparr>"

text \<open>
  The console: every report the verifier prints appends one event, which says what is
  reported and about which objects.
  \<^item> \<open>Exhausted f\<close>: "f: witness exhausted".
  \<^item> \<open>DuplicateLock w name file1 line1 file2 line2\<close>: "acquring duplicate lock of same
    type" for the witness \<open>w\<close>, with the lock's name and the two sites printed.
  \<^item> \<open>LockOrderReversal w w1 lock1 lock giant file line\<close>: "lock order reversal" on
    acquiring \<open>lock\<close> (witness \<open>w\<close>) at \<open>file:line\<close> while holding \<open>lock1\<close> (witness
    \<open>w1\<close>); \<open>giant\<close> says whether \<open>lock1\<close> is the Giant instance.  The "1st" line of
    the report (found by a scan for an earlier held lock of witness \<open>w\<close>) is not
    modelled.
  \<^item> \<open>SleepingWith file line check_only name file1 line1\<close>: the line \<^verbatim>\<open>witness_sleep\<close>
    prints for a held lock.
  The optional trap into the debugger (\<^verbatim>\<open>#ifdef DDB\<close>) is not modelled.
\<close>

datatype event =
    Exhausted string
  | DuplicateLock nat string "string option" int string int
  | LockOrderReversal nat nat nat nat bool string int
  | SleepingWith string int bool string "string option" int

datatype error = Panic string | Fault

text \<open>
  The global variables of the verifier, the memory of the lock objects (\<open>locks\<close>), the
  held-lock lists of every process (\<open>p_sleeplocks\<close>) and of every processor
  (\<open>spinlocks\<close>), and the console.  A held-lock list is the list of its chunks from the
  head of the chain, each chunk the list of its first \<^verbatim>\<open>ll_count\<close> locks.  The two
  freelists of chunks are modelled by the number of chunks on them.  \<open>MAXCPU\<close> (a macro
  of a machine header outside the sources), \<open>LOCK_NCHILDREN\<close> (the number of entries
  of the array \<^verbatim>\<open>ll_children\<close> of a chunk, a macro of \<^verbatim>\<open>sys/lock.h\<close>), the address
  of \<^verbatim>\<open>Giant.mtx_object\<close> and the address of \<^verbatim>\<open>all_mtx.mtx_object\<close> are parameters kept in the state; no operation
  changes them.  The mutex \<^verbatim>\<open>w_mtx\<close> and the critical sections are not modelled: the
  operations of the model run one at a time.
\<close>

record wstate =
  MAXCPU :: nat
  LOCK_NCHILDREN :: nat
  Giant :: nat
  all_mtx :: nat
  witness_watch :: int
  witness_skipspin :: int
  witness_cold :: bool
  witness_dead :: bool
  panicstr :: "string option"
  recursed :: bool
  w_free :: "nat list"
  w_all :: "nat list"
  w_spin :: "nat list"
  w_sleep :: "nat list"
  w_child_free :: nat
  w_lock_list_free :: nat
  w_data :: "nat \<Rightarrow> witness"
  locks :: "nat \<Rightarrow> lock_object"
  all_locks :: "nat list"
  lock_cur_cnt :: "32 word"
  lock_max_cnt :: "32 word"
  p_sleeplocks :: "nat \<Rightarrow> nat list list"
  spinlocks :: "nat \<Rightarrow> nat list list"
  console :: "event list"



definition LOCK_CHILDCOUNT :: "wstate \<Rightarrow> nat" where
  "LOCK_CHILDCOUNT st = (MAXCPU st + 1024) * 2"

definition WITNESS_NCHILDREN :: nat where
  "WITNESS_NCHILDREN = 6"

section \<open>Policy tables\<close>

definition dup_list :: "string list" where
  "dup_list = [''process lock'']"

definition blessed_list :: "(string \<times> string) list" where
  "blessed_list = []"

definition dup_ok :: "witness \<Rightarrow> error + bool" where
  "dup_ok w = (case w_name w of None \<Rightarrow> Inl Fault | Some n \<Rightarrow> Inr (n \<in> set dup_list))"

fun blessed_loop :: "string \<Rightarrow> string \<Rightarrow> (string \<times> string) list \<Rightarrow> bool" where
  "blessed_loop n1 n2 [] = False"
| "blessed_loop n1 n2 ((b_lock1, b_lock2) # bs) =
     (if n1 = b_lock1 then (if n2 = b_lock2 then True else blessed_loop n1 n2 bs)
      else if n1 = b_lock2 \<and> n2 = b_lock1 then True
      else blessed_loop n1 n2 bs)"

text \<open>
  With an empty \<^verbatim>\<open>blessed_list\<close> the loop body of \<^verbatim>\<open>blessed\<close> never runs and no name is
  read; otherwise \<^verbatim>\<open>strcmp\<close> reads both names.
\<close>

definition blessed :: "witness \<Rightarrow> witness \<Rightarrow> error + bool" where
  "blessed w1 w2 =
     (if blessed_list = [] then Inr False
      else case (w_name w1, w_name w2) of
             (Some n1, Some n2) \<Rightarrow> Inr (blessed_loop n1 n2 blessed_list)
           | _ \<Rightarrow> Inl Fault)"

section \<open>The three pools\<close>

definition witness_get :: "wstate \<Rightarrow> nat option \<times> wstate" where
  "witness_get st =
     (case w_free st of
        [] \<Rightarrow> (None, st\<lparr>witness_dead := True,
                         console := console st @ [Exhausted ''witness_get'']\<rparr>)
      | w # ws \<Rightarrow> (Some w, st\<lparr>w_free := ws, w_data := (w_data st)(w := zero_witness)\<rparr>))"


definition witness_child_get :: "wstate \<Rightarrow> nat list option \<times> wstate" where
  "witness_child_get st =
     (if w_child_free st = 0
      then (None, st\<lparr>witness_dead := True,
                      console := console st @ [Exhausted ''witness_child_get'']\<rparr>)
      else (Some [], st\<lparr>w_child_free := w_child_free st - 1\<rparr>))"

definition witness_child_free :: "wstate \<Rightarrow> wstate" where
  "witness_child_free st = st\<lparr>w_child_free := w_child_free st + 1\<rparr>"

definition witness_lock_list_get :: "wstate \<Rightarrow> nat list option \<times> wstate" where
  "witness_lock_list_get st =
     (if w_lock_list_free st = 0
      then (None, st\<lparr>witness_dead := True,
                      console := console st @ [Exhausted ''witness_lock_list_get'']\<rparr>)
      else (Some [], st\<lparr>w_lock_list_free := w_lock_list_free st - 1\<rparr>))"

definition witness_lock_list_free :: "wstate \<Rightarrow> wstate" where
  "witness_lock_list_free st = st\<lparr>w_lock_list_free := w_lock_list_free st + 1\<rparr>"

section \<open>The witness registry\<close>

text \<open>The \<^verbatim>\<open>STAILQ_FOREACH\<close> over \<^verbatim>\<open>w_all\<close> in \<^verbatim>\<open>enroll\<close>, with its \<^verbatim>\<open>strcmp\<close>.\<close>

fun w_all_find :: "(nat \<Rightarrow> witness) \<Rightarrow> string \<Rightarrow> nat list \<Rightarrow> error + nat option" where
  "w_all_find d description [] = Inr None"
| "w_all_find d description (w # ws) =
     (case w_name (d w) of
        None \<Rightarrow> Inl Fault
      | Some n \<Rightarrow> if description = n then Inr (Some w) else w_all_find d description ws)"

definition enroll :: "string \<Rightarrow> lock_class \<Rightarrow> wstate \<Rightarrow> error + (nat option \<times> wstate)" where
  "enroll description lock_class st =
     (if witness_watch st = 0 then Inr (None, st)
      else if LC_SPINLOCK (lc_flags lock_class) \<and> witness_skipspin st \<noteq> 0 then Inr (None, st)
      else case w_all_find (w_data st) description (w_all st) of
        Inl e \<Rightarrow> Inl e
      | Inr (Some w) \<Rightarrow>
          (let st1 = st\<lparr>w_data := (w_data st)
                          (w := (w_data st w)\<lparr>w_refcount := w_refcount (w_data st w) + 1\<rparr>)\<rparr>
           in if Some (lc_addr lock_class) \<noteq> map_option lc_addr (w_class (w_data st1 w))
              then Inl (Panic ''lock does not match earlier lock'')
              else Inr (Some w, st1))
      | Inr None \<Rightarrow>
          if LC_SPINLOCK (lc_flags lock_class) \<and> \<not> witness_cold st
          then Inl (Panic ''spin lock not in order list'')
          else (case witness_get st of
                  (None, st1) \<Rightarrow> Inr (None, st1)
                | (Some w, st1) \<Rightarrow>
                    (let st2 = st1\<lparr>w_data := (w_data st1)
                                     (w := (w_data st1 w)\<lparr>w_name := Some description,
                                            w_class := Some lock_class, w_refcount := 1\<rparr>),
                                   w_all := w # w_all st1\<rparr>
                     in if LC_SPINLOCK (lc_flags lock_class)
                        then Inr (Some w, st2\<lparr>w_spin := w # w_spin st2\<rparr>)
                        else if LC_SLEEPLOCK (lc_flags lock_class)
                        then Inr (Some w, st2\<lparr>w_sleep := w # w_sleep st2\<rparr>)
                        else Inl (Panic ''lock class is not sleep or spin''))))"

section \<open>The order graph\<close>

definition isitmychild :: "(nat \<Rightarrow> witness) \<Rightarrow> nat \<Rightarrow> nat \<Rightarrow> bool" where
  "isitmychild d parent child = (\<exists>wcl \<in> set (w_children (d parent)). child \<in> set wcl)"

text \<open>
  \<^verbatim>\<open>isitmydescendant\<close> is a depth-first search that does not mark what it has visited:
  on a cyclic graph it does not return.  \<open>isitmydescendant_loop d ps child\<close> runs
  \<^verbatim>\<open>isitmydescendant(p, child)\<close> for the witnesses \<open>p\<close> of \<open>ps\<close> in turn, until one call
  returns 1; this is the \<^verbatim>\<open>for\<close> loop of the function over the children of a parent,
  with the call it makes written in place.  \<open>None\<close> means that the search does not
  return.  The assertions \<^verbatim>\<open>MPASS\<close> and \<^verbatim>\<open>KASSERT\<close> (macros of headers outside the
  sources, compiled in only with the kernel's invariant checking) are not modelled.
\<close>

partial_function (option) isitmydescendant_loop ::
  "(nat \<Rightarrow> witness) \<Rightarrow> nat list \<Rightarrow> nat \<Rightarrow> bool option" where
  "isitmydescendant_loop d ps child =
     (case ps of
        [] \<Rightarrow> Some False
      | parent # rest \<Rightarrow>
          if isitmychild d parent child then Some True
          else Option.bind (isitmydescendant_loop d (concat (w_children (d parent))) child)
                 (\<lambda>found. if found then Some True else isitmydescendant_loop d rest child))"

declare isitmydescendant_loop.simps [code]

definition isitmydescendant :: "(nat \<Rightarrow> witness) \<Rightarrow> nat \<Rightarrow> nat \<Rightarrow> bool option" where
  "isitmydescendant d parent child = isitmydescendant_loop d [parent] child"

text \<open>
  \<^verbatim>\<open>removechild\<close>: the first chunk that holds the child loses it (the last entry of the
  chunk moves into its place); a chunk left empty is unlinked and freed.
\<close>

fun index_of :: "'a \<Rightarrow> 'a list \<Rightarrow> nat" where
  "index_of x [] = 0"
| "index_of x (y # ys) = (if x = y then 0 else Suc (index_of x ys))"

definition wcl_take_out :: "nat \<Rightarrow> nat list \<Rightarrow> nat list" where
  "wcl_take_out child wcl =
     (let i = index_of child wcl; n = length wcl - 1
      in if n > i then (butlast wcl)[i := last wcl] else butlast wcl)"

fun wcl_remove :: "nat \<Rightarrow> nat list list \<Rightarrow> (nat list list \<times> bool) option" where
  "wcl_remove child [] = None"
| "wcl_remove child (wcl # rest) =
     (if child \<in> set wcl
      then (let wcl1 = wcl_take_out child wcl
            in if wcl1 \<noteq> [] then Some (wcl1 # rest, False) else Some (rest, True))
      else (case wcl_remove child rest of
              None \<Rightarrow> None
            | Some (rest1, freed) \<Rightarrow> Some (wcl # rest1, freed)))"

definition removechild :: "nat \<Rightarrow> nat \<Rightarrow> wstate \<Rightarrow> wstate" where
  "removechild parent child st =
     (case wcl_remove child (w_children (w_data st parent)) of
        None \<Rightarrow> st
      | Some (chain, freed) \<Rightarrow>
          (let st1 = st\<lparr>w_data := (w_data st)(parent := (w_data st parent)\<lparr>w_children := chain\<rparr>)\<rparr>
           in if freed then witness_child_free st1 else st1))"

text \<open>
  \<^verbatim>\<open>witness_leveldescendents\<close>, in the same form as \<open>isitmydescendant_loop\<close>: the calls
  for the witnesses of \<open>ps\<close> in turn, all at one level.
\<close>

partial_function (option) witness_leveldescendents_loop ::
  "nat list \<Rightarrow> nat \<Rightarrow> (nat \<Rightarrow> witness) \<Rightarrow> (nat \<Rightarrow> witness) option" where
  "witness_leveldescendents_loop ps level d =
     (case ps of
        [] \<Rightarrow> Some d
      | parent # rest \<Rightarrow>
          (let d1 = (if w_level (d parent) < level
                     then d(parent := (d parent)\<lparr>w_level := level\<rparr>) else d)
           in Option.bind
                (witness_leveldescendents_loop (concat (w_children (d1 parent))) (level + 1) d1)
                (\<lambda>d2. witness_leveldescendents_loop rest level d2)))"

declare witness_leveldescendents_loop.simps [code]

definition witness_leveldescendents ::
  "nat \<Rightarrow> nat \<Rightarrow> (nat \<Rightarrow> witness) \<Rightarrow> (nat \<Rightarrow> witness) option" where
  "witness_leveldescendents parent level d = witness_leveldescendents_loop [parent] level d"

fun clear_levels :: "nat list \<Rightarrow> (nat \<Rightarrow> witness) \<Rightarrow> (nat \<Rightarrow> witness)" where
  "clear_levels [] d = d"
| "clear_levels (w # ws) d = clear_levels ws (d(w := (d w)\<lparr>w_level := 0\<rparr>))"

text \<open>The second loop of \<^verbatim>\<open>witness_levelall\<close>; \<open>sl\<close> and \<open>sp\<close> are \<^verbatim>\<open>w_sleep\<close> and \<^verbatim>\<open>w_spin\<close>.\<close>

fun levelall_loop ::
  "nat list \<Rightarrow> nat list \<Rightarrow> nat list \<Rightarrow> (nat \<Rightarrow> witness) \<Rightarrow> (error + (nat \<Rightarrow> witness)) option" where
  "levelall_loop sl sp [] d = Some (Inr d)"
| "levelall_loop sl sp (w # ws) d =
     (case w_class (d w) of
        None \<Rightarrow> Some (Inl Fault)
      | Some c \<Rightarrow>
          (let list = (if LC_SLEEPLOCK (lc_flags c) then sl else sp)
           in if (\<exists>w1 \<in> set list. isitmychild d w1 w) then levelall_loop sl sp ws d
              else (case witness_leveldescendents w 0 d of
                      None \<Rightarrow> None
                    | Some d1 \<Rightarrow> levelall_loop sl sp ws d1)))"

definition witness_levelall :: "wstate \<Rightarrow> (error + wstate) option" where
  "witness_levelall st =
     (case levelall_loop (w_sleep st) (w_spin st) (w_all st) (clear_levels (w_all st) (w_data st)) of
        None \<Rightarrow> None
      | Some (Inl e) \<Rightarrow> Some (Inl e)
      | Some (Inr d) \<Rightarrow> Some (Inr (st\<lparr>w_data := d\<rparr>)))"

text \<open>
  \<^verbatim>\<open>itismychild\<close> up to its test of \<^verbatim>\<open>recursed\<close>: the class check and the insertion of the
  child into the first chunk of the parent that is not full, or into a new chunk at the
  end of the chain.  The result is the value returned (1 when no chunk could be had)
  and the state.
\<close>

fun wcl_insert :: "nat \<Rightarrow> nat list list \<Rightarrow> nat list list option" where
  "wcl_insert child [] = None"
| "wcl_insert child (wcl # rest) =
     (if length wcl = WITNESS_NCHILDREN
      then (case wcl_insert child rest of None \<Rightarrow> None | Some rest1 \<Rightarrow> Some (wcl # rest1))
      else Some ((wcl @ [child]) # rest))"

definition set_children :: "nat \<Rightarrow> nat list list \<Rightarrow> wstate \<Rightarrow> wstate" where
  "set_children parent chain st =
     st\<lparr>w_data := (w_data st)(parent := (w_data st parent)\<lparr>w_children := chain\<rparr>)\<rparr>"

definition itismychild_insert :: "nat \<Rightarrow> nat \<Rightarrow> wstate \<Rightarrow> error + (int \<times> wstate)" where
  "itismychild_insert parent child st =
     (case (w_class (w_data st parent), w_class (w_data st child)) of
        (Some pc, Some cc) \<Rightarrow>
          if (LC_SLEEPLOCK (lc_flags pc), LC_SPINLOCK (lc_flags pc)) \<noteq>
             (LC_SLEEPLOCK (lc_flags cc), LC_SPINLOCK (lc_flags cc))
          then Inl (Panic ''itismychild: parent and child are not the same lock type'')
          else (case wcl_insert child (w_children (w_data st parent)) of
                  Some chain \<Rightarrow> Inr (0, set_children parent chain st)
                | None \<Rightarrow>
                    (case witness_child_get st of
                       (None, st1) \<Rightarrow> Inr (1, st1)
                     | (Some wcl, st1) \<Rightarrow>
                         Inr (0, set_children parent
                                   (w_children (w_data st1 parent) @ [wcl @ [child]]) st1)))
      | _ \<Rightarrow> Inl Fault)"

text \<open>
  The pruning pass of \<^verbatim>\<open>itismychild\<close>.  It runs with \<^verbatim>\<open>recursed\<close> set, so the call of
  \<^verbatim>\<open>itismychild\<close> in its body returns at the test of \<^verbatim>\<open>recursed\<close>: that call is
  \<open>itismychild_insert\<close>, and its value is ignored.
\<close>

fun prune_parents :: "nat \<Rightarrow> nat list \<Rightarrow> wstate \<Rightarrow> (error + wstate) option" where
  "prune_parents child [] st = Some (Inr st)"
| "prune_parents child (parent # ps) st =
     (if \<not> isitmychild (w_data st) parent child then prune_parents child ps st
      else (let st1 = removechild parent child st
            in case isitmydescendant (w_data st1) parent child of
                 None \<Rightarrow> None
               | Some True \<Rightarrow> prune_parents child ps st1
               | Some False \<Rightarrow>
                   (case itismychild_insert parent child st1 of
                      Inl e \<Rightarrow> Some (Inl e)
                    | Inr (r, st2) \<Rightarrow> prune_parents child ps st2)))"

fun prune_children :: "nat list \<Rightarrow> nat list \<Rightarrow> wstate \<Rightarrow> (error + wstate) option" where
  "prune_children [] list st = Some (Inr st)"
| "prune_children (child # cs) list st =
     (case prune_parents child list st of
        None \<Rightarrow> None
      | Some (Inl e) \<Rightarrow> Some (Inl e)
      | Some (Inr st1) \<Rightarrow> prune_children cs list st1)"

definition itismychild :: "nat \<Rightarrow> nat \<Rightarrow> wstate \<Rightarrow> (error + (int \<times> wstate)) option" where
  "itismychild parent child st =
     (case itismychild_insert parent child st of
        Inl e \<Rightarrow> Some (Inl e)
      | Inr (r, st1) \<Rightarrow>
          if r = 1 then Some (Inr (1, st1))
          else if recursed st1 then Some (Inr (0, st1))
          else (case w_class (w_data st1 parent) of
                  None \<Rightarrow> Some (Inl Fault)
                | Some pc \<Rightarrow>
                    (let st2 = st1\<lparr>recursed := True\<rparr>;
                         list = (if LC_SLEEPLOCK (lc_flags pc) then w_sleep st2 else w_spin st2)
                     in case prune_children list list st2 of
                          None \<Rightarrow> None
                        | Some (Inl e) \<Rightarrow> Some (Inl e)
                        | Some (Inr st3) \<Rightarrow>
                            (case witness_levelall (st3\<lparr>recursed := False\<rparr>) of
                               None \<Rightarrow> None
                             | Some (Inl e) \<Rightarrow> Some (Inl e)
                             | Some (Inr st4) \<Rightarrow> Some (Inr (0, st4))))))"

section \<open>Acquisition, release, about to sleep\<close>

text \<open>
  The operation flags \<^verbatim>\<open>LOP_*\<close> (of \<^verbatim>\<open>sys/lock.h\<close>), and the held-lock list an operation
  works on: \<^verbatim>\<open>&p->p_sleeplocks\<close> of the current process or \<^verbatim>\<open>PCPU_PTR(spinlocks)\<close> of the
  current processor.  Every entry point takes the current process \<open>p\<close> and the current
  processor \<open>cpu\<close> as arguments.
\<close>

record lop_flagset =
  LOP_TRYLOCK :: bool
  LOP_NOSWITCH :: bool

datatype lock_list_ref = Sleeplocks nat | Spinlocks nat

fun get_list :: "lock_list_ref \<Rightarrow> wstate \<Rightarrow> nat list list" where
  "get_list (Sleeplocks p) st = p_sleeplocks st p"
| "get_list (Spinlocks cpu) st = spinlocks st cpu"

fun set_list :: "lock_list_ref \<Rightarrow> nat list list \<Rightarrow> wstate \<Rightarrow> wstate" where
  "set_list (Sleeplocks p) lle st = st\<lparr>p_sleeplocks := (p_sleeplocks st)(p := lle)\<rparr>"
| "set_list (Spinlocks cpu) lle st = st\<lparr>spinlocks := (spinlocks st)(cpu := lle)\<rparr>"

text \<open>
  The order in which the loops of \<^verbatim>\<open>witness_lock\<close> and \<^verbatim>\<open>witness_sleep\<close> visit a held-lock
  list: chunk after chunk from the head, each chunk from its last entry down.
\<close>

definition scan_order :: "nat list list \<Rightarrow> nat list" where
  "scan_order lle = concat (map rev lle)"

text \<open>
  The loop of \<^verbatim>\<open>witness_lock\<close> over the held locks, up to the first lock whose witness
  is a descendant of \<open>w\<close>: the result is that lock and its witness, or \<open>Some None\<close> when
  the loop ends without one.
\<close>

fun check_held ::
  "(nat \<Rightarrow> witness) \<Rightarrow> (nat \<Rightarrow> lock_object) \<Rightarrow> nat \<Rightarrow> nat list \<Rightarrow> (nat \<times> nat) option option" where
  "check_held d lks w [] = Some None"
| "check_held d lks w (lock1 # held) =
     (case lo_witness (lks lock1) of
        None \<Rightarrow> check_held d lks w held
      | Some w1 \<Rightarrow>
          (case isitmydescendant d w w1 of
             None \<Rightarrow> None
           | Some False \<Rightarrow> check_held d lks w held
           | Some True \<Rightarrow> Some (Some (lock1, w1))))"

text \<open>The report of a lock order violation found at \<open>lock1\<close>, unless blessed or squawked.\<close>

definition witness_lock_violation ::
  "nat \<Rightarrow> nat \<Rightarrow> nat \<Rightarrow> nat \<Rightarrow> string \<Rightarrow> int \<Rightarrow> wstate \<Rightarrow> error + wstate" where
  "witness_lock_violation lock w lock1 w1 file line st =
     (case blessed (w_data st w) (w_data st w1) of
        Inl e \<Rightarrow> Inl e
      | Inr True \<Rightarrow> Inr st
      | Inr False \<Rightarrow>
          if lock1 = Giant st
          then (if w_Giant_squawked (w_data st w1) then Inr st
                else Inr (st\<lparr>w_data := (w_data st)(w1 := (w_data st w1)\<lparr>w_Giant_squawked := True\<rparr>),
                             console := console st @ [LockOrderReversal w w1 lock1 lock True file line]\<rparr>))
          else (if w_other_squawked (w_data st w1) then Inr st
                else Inr (st\<lparr>w_data := (w_data st)(w1 := (w_data st w1)\<lparr>w_other_squawked := True\<rparr>),
                             console := console st @ [LockOrderReversal w w1 lock1 lock False file line]\<rparr>)))"

text \<open>The duplicate check, taken when the last lock acquired has the witness \<open>w\<close> too.\<close>

definition witness_lock_dup :: "nat \<Rightarrow> nat \<Rightarrow> string \<Rightarrow> int \<Rightarrow> wstate \<Rightarrow> error + wstate" where
  "witness_lock_dup lock w file line st =
     (if w_same_squawked (w_data st w) then Inr st
      else case dup_ok (w_data st w) of
             Inl e \<Rightarrow> Inl e
           | Inr True \<Rightarrow> Inr st
           | Inr False \<Rightarrow>
               Inr (st\<lparr>w_data := (w_data st)(w := (w_data st w)\<lparr>w_same_squawked := True\<rparr>),
                       console := console st @
                         [DuplicateLock w (lo_name (locks st lock)) (w_file (w_data st w))
                            (w_line (w_data st w)) file line]\<rparr>))"

text \<open>
  \<^verbatim>\<open>witness_lock\<close> from the test of \<^verbatim>\<open>LOP_TRYLOCK\<close> to the label \<^verbatim>\<open>out\<close>.  Reading the
  last entry of a head chunk with no entry, or the fields of a null witness, is a
  \<open>Fault\<close>.
\<close>

definition witness_lock_check ::
  "lock_list_ref \<Rightarrow> nat \<Rightarrow> nat \<Rightarrow> lop_flagset \<Rightarrow> string \<Rightarrow> int \<Rightarrow> wstate \<Rightarrow> (error + wstate) option" where
  "witness_lock_check lock_list lock w flags file line st =
     (if LOP_TRYLOCK flags then Some (Inr st)
      else case get_list lock_list st of
        [] \<Rightarrow> Some (Inr st)
      | lle # rest \<Rightarrow>
          if lle = [] then Some (Inl Fault)
          else (case lo_witness (locks st (last lle)) of
                  None \<Rightarrow> Some (Inl Fault)
                | Some w1 \<Rightarrow>
                    if w1 = w then Some (witness_lock_dup lock w file line st)
                    else if witness_watch st > 1 \<and> w_level (w_data st w) > w_level (w_data st w1)
                    then Some (Inr st)
                    else (case isitmydescendant (w_data st) w1 w of
                            None \<Rightarrow> None
                          | Some True \<Rightarrow> Some (Inr st)
                          | Some False \<Rightarrow>
                              (case check_held (w_data st) (locks st) w (scan_order (lle # rest)) of
                                 None \<Rightarrow> None
                               | Some (Some (lock1, w1')) \<Rightarrow>
                                   Some (witness_lock_violation lock w lock1 w1' file line st)
                               | Some None \<Rightarrow>
                                   (case itismychild w1 w st of
                                      None \<Rightarrow> None
                                    | Some (Inl e) \<Rightarrow> Some (Inl e)
                                    | Some (Inr (r, st1)) \<Rightarrow> Some (Inr st1))))))"

text \<open>
  \<^verbatim>\<open>witness_lock\<close> from the label \<^verbatim>\<open>out\<close>.  The source takes a new chunk when the list
  is empty or the count of the head chunk equals \<^verbatim>\<open>LOCK_CHILDCOUNT\<close> (the size of the pool
  of chunks, not \<^verbatim>\<open>LOCK_NCHILDREN\<close>, the number of entries of \<^verbatim>\<open>ll_children\<close>), and
  then stores the lock at the index \<^verbatim>\<open>ll_count\<close> of the head chunk.  A store at an index
  that is not below \<^verbatim>\<open>LOCK_NCHILDREN\<close> is outside the array: a \<open>Fault\<close>.  When no chunk can
  be had the head pointer of the list has already been overwritten with the null result.
\<close>

definition witness_lock_out ::
  "lock_list_ref \<Rightarrow> nat \<Rightarrow> nat \<Rightarrow> string \<Rightarrow> int \<Rightarrow> wstate \<Rightarrow> error + wstate" where
  "witness_lock_out lock_list lock w file line st =
     (let st1 = st\<lparr>w_data := (w_data st)(w := (w_data st w)\<lparr>w_file := Some file, w_line := line\<rparr>),
                   locks := (locks st)(lock := (locks st lock)\<lparr>lo_line := line, lo_file := Some file\<rparr>)\<rparr>;
          lle = get_list lock_list st1
      in if lle = [] \<or> length (hd lle) = LOCK_CHILDCOUNT st1
         then (case witness_lock_list_get st1 of
                 (None, st2) \<Rightarrow> Inr (set_list lock_list [] st2)
               | (Some new, st2) \<Rightarrow>
                   if length new < LOCK_NCHILDREN st2
                   then Inr (set_list lock_list ((new @ [lock]) # lle) st2)
                   else Inl Fault)
         else (case lle of
                 [] \<Rightarrow> Inr st1
               | head # rest \<Rightarrow>
                   if length head < LOCK_NCHILDREN st1
                   then Inr (set_list lock_list ((head @ [lock]) # rest) st1)
                   else Inl Fault))"

definition witness_lock ::
  "nat \<Rightarrow> lop_flagset \<Rightarrow> string \<Rightarrow> int \<Rightarrow> nat \<Rightarrow> nat \<Rightarrow> wstate \<Rightarrow> (error + wstate) option" where
  "witness_lock lock flags file line p cpu st =
     (if witness_cold st \<or> witness_dead st \<or> panicstr st \<noteq> None then Some (Inr st)
      else case lo_witness (locks st lock) of
        None \<Rightarrow> Some (Inr st)
      | Some w \<Rightarrow>
          (let class = lo_class (locks st lock); lf = lo_flags (locks st lock)
           in if \<not> LO_LOCKED lf then Some (Inl (Panic ''witness_lock: lock is not locked''))
              else if LO_RECURSED lf
              then (if \<not> LO_RECURSABLE lf
                    then Some (Inl (Panic ''witness_lock: recursed on non-recursive lock''))
                    else Some (Inr st))
              else if LC_SLEEPLOCK (lc_flags class) \<and> spinlocks st cpu \<noteq> []
              then Some (Inl (Panic ''blockable sleep lock''))
              else (let lock_list = (if LC_SLEEPLOCK (lc_flags class)
                                     then Sleeplocks p else Spinlocks cpu)
                    in case witness_lock_check lock_list lock w flags file line st of
                         None \<Rightarrow> None
                       | Some (Inl e) \<Rightarrow> Some (Inl e)
                       | Some (Inr st1) \<Rightarrow>
                           Some (witness_lock_out lock_list lock w file line st1))))"

text \<open>
  The search loop of \<^verbatim>\<open>witness_unlock\<close>: the first chunk that holds the lock loses its
  first entry equal to the lock, the entries after it move down; a chunk left empty is
  unlinked, and the flag returned says so.
\<close>

fun lle_remove :: "nat \<Rightarrow> nat list list \<Rightarrow> (nat list list \<times> bool) option" where
  "lle_remove lock [] = None"
| "lle_remove lock (lle # rest) =
     (if lock \<in> set lle
      then (let lle1 = remove1 lock lle
            in if lle1 = [] then Some (rest, True) else Some (lle1 # rest, False))
      else (case lle_remove lock rest of
              None \<Rightarrow> None
            | Some (rest1, freed) \<Rightarrow> Some (lle # rest1, freed)))"

definition unlock_search :: "lock_list_ref \<Rightarrow> nat \<Rightarrow> wstate \<Rightarrow> wstate" where
  "unlock_search lock_list lock st =
     (case lle_remove lock (get_list lock_list st) of
        None \<Rightarrow> st
      | Some (chain, freed) \<Rightarrow>
          (let st1 = set_list lock_list chain st
           in if freed then witness_lock_list_free st1 else st1))"

definition witness_unlock ::
  "nat \<Rightarrow> lop_flagset \<Rightarrow> string \<Rightarrow> int \<Rightarrow> nat \<Rightarrow> nat \<Rightarrow> wstate \<Rightarrow> error + wstate" where
  "witness_unlock lock flags file line p cpu st =
     (if witness_cold st \<or> witness_dead st \<or> lo_witness (locks st lock) = None \<or>
         panicstr st \<noteq> None
      then Inr st
      else (let class = lo_class (locks st lock); lf = lo_flags (locks st lock)
            in if LO_RECURSED lf
               then (if \<not> LO_LOCKED lf
                     then Inl (Panic ''witness_unlock: recursed lock is not locked'')
                     else Inr st)
               else if LC_SLEEPLOCK (lc_flags class) \<and> \<not> LOP_NOSWITCH flags \<and> spinlocks st cpu \<noteq> []
               then Inl (Panic ''switchable sleep unlock'')
               else (let lock_list = (if LC_SLEEPLOCK (lc_flags class)
                                      then Sleeplocks p else Spinlocks cpu)
                     in Inr (unlock_search lock_list lock st))))"

text \<open>
  The loops of \<^verbatim>\<open>witness_sleep\<close> over one held-lock list, given in \<open>scan_order\<close>; \<open>lock\<close>
  is the lock passed in, null or not.
\<close>

fun sleep_loop ::
  "bool \<Rightarrow> nat option \<Rightarrow> string \<Rightarrow> int \<Rightarrow> nat list \<Rightarrow> int \<times> wstate \<Rightarrow> int \<times> wstate" where
  "sleep_loop check_only lock file line [] (n, st) = (n, st)"
| "sleep_loop check_only lock file line (lock1 # held) (n, st) =
     (if Some lock1 = lock \<or> lock1 = Giant st \<or> LO_SLEEPABLE (lo_flags (locks st lock1))
      then sleep_loop check_only lock file line held (n, st)
      else sleep_loop check_only lock file line held
             (n + 1, st\<lparr>console := console st @
                [SleepingWith file line check_only (lo_name (locks st lock1))
                   (lo_file (locks st lock1)) (lo_line (locks st lock1))]\<rparr>))"

definition witness_sleep ::
  "bool \<Rightarrow> nat option \<Rightarrow> string \<Rightarrow> int \<Rightarrow> nat \<Rightarrow> nat \<Rightarrow> wstate \<Rightarrow> int \<times> wstate" where
  "witness_sleep check_only lock file line p cpu st =
     (if witness_dead st \<or> panicstr st \<noteq> None then (0, st)
      else sleep_loop check_only lock file line (scan_order (spinlocks st cpu))
             (sleep_loop check_only lock file line (scan_order (p_sleeplocks st p)) (0, st)))"

section \<open>Creation and destruction of locks, initialisation\<close>




text \<open>
  Modelled from the spec: the three lock classes that \<^verbatim>\<open>order_lists\<close> names are defined
  outside the sources.  The spec's lock classes are blockable or non-blockable, may allow
  recursion and may allow sleeping while held: the sleep mutex is blockable and
  recursable, the spin mutex non-blockable and recursable, the sx lock blockable and may
  be held across a sleep.  Their addresses are three different numbers.
\<close>

definition lock_class_mtx_sleep :: lock_class where
  "lock_class_mtx_sleep = \<lparr> lc_addr = 1, lc_name = ''sleep mutex'',
     lc_flags = \<lparr> LC_SLEEPLOCK = True, LC_SPINLOCK = False, LC_SLEEPABLE = False,
                  LC_RECURSABLE = True \<rparr> \<rparr>"

definition lock_class_mtx_spin :: lock_class where
  "lock_class_mtx_spin = \<lparr> lc_addr = 2, lc_name = ''spin mutex'',
     lc_flags = \<lparr> LC_SLEEPLOCK = False, LC_SPINLOCK = True, LC_SLEEPABLE = False,
                  LC_RECURSABLE = True \<rparr> \<rparr>"

definition lock_class_sx :: lock_class where
  "lock_class_sx = \<lparr> lc_addr = 3, lc_name = ''sx'',
     lc_flags = \<lparr> LC_SLEEPLOCK = True, LC_SPINLOCK = False, LC_SLEEPABLE = True,
                  LC_RECURSABLE = False \<rparr> \<rparr>"






section \<open>Example states\<close>

text \<open>
  A watched lock object that is initialised and locked, a witness as \<^verbatim>\<open>enroll\<close> leaves
  it, and a state after initialisation in which nothing is enrolled or held and every
  pool is empty.  The examples below are updates of this state.
\<close>

definition ex_object :: "string \<Rightarrow> lock_class \<Rightarrow> bool \<Rightarrow> nat option \<Rightarrow> lock_object" where
  "ex_object name class sleepable w =
     \<lparr> lo_class = class, lo_name = name, lo_file = None, lo_line = 0,
       lo_flags = \<lparr> LO_INITIALIZED = True, LO_WITNESS = True, LO_RECURSABLE = False,
                    LO_SLEEPABLE = sleepable, LO_LOCKED = True, LO_RECURSED = False \<rparr>,
       lo_witness = w \<rparr>"

definition ex_witness :: "string \<Rightarrow> lock_class \<Rightarrow> witness" where
  "ex_witness name class =
     zero_witness\<lparr>w_name := Some name, w_class := Some class, w_refcount := 1\<rparr>"

definition ex_warm :: wstate where
  "ex_warm = \<lparr> MAXCPU = 1, LOCK_NCHILDREN = 6, Giant = 0, all_mtx = 1, witness_watch = 1, witness_skipspin = 0,
     witness_cold = False, witness_dead = False, panicstr = None, recursed = False,
     w_free = [], w_all = [], w_spin = [], w_sleep = [], w_child_free = 0,
     w_lock_list_free = 0, w_data = (\<lambda>w. zero_witness),
     locks = (\<lambda>l. ex_object ''unwatched'' lock_class_mtx_sleep False None),
     all_locks = [], lock_cur_cnt = 0, lock_max_cnt = 0,
     p_sleeplocks = (\<lambda>p. []), spinlocks = (\<lambda>cpu. []), console = [] \<rparr>"

definition ex_flags :: "bool \<Rightarrow> lop_flagset" where
  "ex_flags try = \<lparr> LOP_TRYLOCK = try, LOP_NOSWITCH = False \<rparr>"

text \<open>The dead verifier, with one watched lock at address 5.\<close>

definition ex_dead :: wstate where
  "ex_dead = ex_warm\<lparr>witness_dead := True,
     locks := (locks ex_warm)(5 := ex_object ''foo'' lock_class_mtx_sleep False (Some 0))\<rparr>"

text \<open>One watched sleep mutex at address 5, held by nobody; every pool is empty.\<close>

definition ex_unheld :: wstate where
  "ex_unheld = ex_warm\<lparr>
     w_data := (w_data ex_warm)(0 := ex_witness ''foo'' lock_class_mtx_sleep),
     w_all := [0], w_sleep := [0],
     locks := (locks ex_warm)(5 := ex_object ''foo'' lock_class_mtx_sleep False (Some 0))\<rparr>"

text \<open>
  Process 0 holds the sleepable sx lock at address 6, processor 0 the spin mutex at
  address 7.
\<close>

definition ex_sleepy :: wstate where
  "ex_sleepy = ex_warm\<lparr>
     locks := (locks ex_warm)(6 := ex_object ''G'' lock_class_sx True (Some 0),
                              7 := ex_object ''S'' lock_class_mtx_spin False (Some 1)),
     p_sleeplocks := (p_sleeplocks ex_warm)(0 := [[6]]),
     spinlocks := (spinlocks ex_warm)(0 := [[7]])\<rparr>"

text \<open>Process 0 holds Giant (address 0), a sleep mutex that is not sleepable.\<close>

definition ex_giant_held :: wstate where
  "ex_giant_held = ex_warm\<lparr>
     locks := (locks ex_warm)(0 := ex_object ''Giant'' lock_class_mtx_sleep False (Some 0)),
     p_sleeplocks := (p_sleeplocks ex_warm)(0 := [[0]])\<rparr>"




text \<open>
  What claim C6 takes the unsafe count to be: the held locks other than the lock passed
  in that are not sleepable.
\<close>

definition claimed_unsafe_count :: "nat option \<Rightarrow> nat \<Rightarrow> nat \<Rightarrow> wstate \<Rightarrow> int" where
  "claimed_unsafe_count lock p cpu st =
     int (length (filter (\<lambda>lock1. Some lock1 \<noteq> lock \<and> \<not> LO_SLEEPABLE (lo_flags (locks st lock1)))
                    (concat (p_sleeplocks st p) @ concat (spinlocks st cpu))))"

text \<open>The held-lock list that \<^verbatim>\<open>witness_lock\<close> and \<^verbatim>\<open>witness_unlock\<close> select for a lock.\<close>

definition list_of :: "nat \<Rightarrow> nat \<Rightarrow> nat \<Rightarrow> wstate \<Rightarrow> lock_list_ref" where
  "list_of lock p cpu st =
     (if LC_SLEEPLOCK (lc_flags (lo_class (locks st lock))) then Sleeplocks p else Spinlocks cpu)"

text \<open>
  The entry checks of \<^verbatim>\<open>witness_lock\<close> and \<^verbatim>\<open>witness_unlock\<close> pass: the verifier is
  initialised, not dead, the system is not panicking, and the lock is watched and not
  recursed.
\<close>

definition checked :: "nat \<Rightarrow> wstate \<Rightarrow> bool" where
  "checked lock st \<longleftrightarrow>
     \<not> witness_cold st \<and> \<not> witness_dead st \<and> panicstr st = None \<and>
     lo_witness (locks st lock) \<noteq> None \<and> \<not> LO_RECURSED (lo_flags (locks st lock))"



section \<open>Frames\<close>

text \<open>
  What the checking part of \<^verbatim>\<open>witness_lock\<close> (and \<^verbatim>\<open>itismychild\<close> in it) can change: the
  witnesses, the pool of child chunks, \<^verbatim>\<open>recursed\<close>, the console, and \<^verbatim>\<open>witness_dead\<close>,
  which it can set but not clear.
\<close>

definition check_frame :: "wstate \<Rightarrow> wstate \<Rightarrow> bool" where
  "check_frame st st' \<longleftrightarrow>
     MAXCPU st' = MAXCPU st \<and> LOCK_NCHILDREN st' = LOCK_NCHILDREN st \<and>
     Giant st' = Giant st \<and> all_mtx st' = all_mtx st \<and>
     witness_watch st' = witness_watch st \<and> witness_skipspin st' = witness_skipspin st \<and>
     witness_cold st' = witness_cold st \<and> panicstr st' = panicstr st \<and>
     w_free st' = w_free st \<and> w_all st' = w_all st \<and> w_spin st' = w_spin st \<and>
     w_sleep st' = w_sleep st \<and> w_lock_list_free st' = w_lock_list_free st \<and>
     locks st' = locks st \<and> all_locks st' = all_locks st \<and>
     lock_cur_cnt st' = lock_cur_cnt st \<and> lock_max_cnt st' = lock_max_cnt st \<and>
     p_sleeplocks st' = p_sleeplocks st \<and> spinlocks st' = spinlocks st \<and>
     (witness_dead st \<longrightarrow> witness_dead st')"

text \<open>The fields of the witnesses other than their children and their level are the same.\<close>

definition data_frame :: "(nat \<Rightarrow> witness) \<Rightarrow> (nat \<Rightarrow> witness) \<Rightarrow> bool" where
  "data_frame d d' \<longleftrightarrow>
     (\<forall>w. w_name (d' w) = w_name (d w) \<and> w_class (d' w) = w_class (d w) \<and>
          w_file (d' w) = w_file (d w) \<and> w_line (d' w) = w_line (d w) \<and>
          w_refcount (d' w) = w_refcount (d w) \<and>
          w_Giant_squawked (d' w) = w_Giant_squawked (d w) \<and>
          w_other_squawked (d' w) = w_other_squawked (d w) \<and>
          w_same_squawked (d' w) = w_same_squawked (d w))"

text \<open>The console has grown by reports of exhaustion only.\<close>

definition console_exhausted :: "wstate \<Rightarrow> wstate \<Rightarrow> bool" where
  "console_exhausted st st' \<longleftrightarrow>
     (\<exists>es. console st' = console st @ es \<and> (\<forall>e \<in> set es. \<exists>f. e = Exhausted f))"

definition graph_frame :: "wstate \<Rightarrow> wstate \<Rightarrow> bool" where
  "graph_frame st st' \<longleftrightarrow>
     check_frame st st' \<and> data_frame (w_data st) (w_data st') \<and> console_exhausted st st'"

text \<open>Levelling changes levels only.\<close>

definition level_frame :: "(nat \<Rightarrow> witness) \<Rightarrow> (nat \<Rightarrow> witness) \<Rightarrow> bool" where
  "level_frame d d' \<longleftrightarrow> (\<forall>w. d' w = (d w)\<lparr>w_level := w_level (d' w)\<rparr>)"

section \<open>Sequences of acquisitions and releases by one context\<close>












section \<open>The order graph as a relation\<close>

text \<open>
  The adjacency relation of the witnesses: the union of all child lists.  A child \<open>c\<close>
  of \<open>p\<close> is independently reachable from \<open>p\<close> when there is a path from \<open>p\<close> to \<open>c\<close>
  that does not use the edge from \<open>p\<close> to \<open>c\<close>.
\<close>

definition edges :: "(nat \<Rightarrow> witness) \<Rightarrow> (nat \<times> nat) set" where
  "edges d = {(p, c). isitmychild d p c}"

definition independent :: "(nat \<times> nat) set \<Rightarrow> nat \<Rightarrow> nat \<Rightarrow> bool" where
  "independent E p c \<longleftrightarrow> (p, c) \<in> (E - {(p, c)})\<^sup>+"

definition children_distinct :: "(nat \<Rightarrow> witness) \<Rightarrow> bool" where
  "children_distinct d \<longleftrightarrow> (\<forall>p. distinct (concat (w_children (d p))))"

text \<open>
  The witnesses on \<^verbatim>\<open>w_sleep\<close> have a class that is a sleep lock and not a spin lock,
  those on \<^verbatim>\<open>w_spin\<close> a class that is a spin lock and not a sleep lock, and every edge
  joins two witnesses of one of the two lists.
\<close>

definition partitioned :: "wstate \<Rightarrow> bool" where
  "partitioned st \<longleftrightarrow>
     (\<forall>w \<in> set (w_sleep st). \<exists>c. w_class (w_data st w) = Some c \<and>
        LC_SLEEPLOCK (lc_flags c) \<and> \<not> LC_SPINLOCK (lc_flags c)) \<and>
     (\<forall>w \<in> set (w_spin st). \<exists>c. w_class (w_data st w) = Some c \<and>
        \<not> LC_SLEEPLOCK (lc_flags c) \<and> LC_SPINLOCK (lc_flags c)) \<and>
     (\<forall>(p, c) \<in> edges (w_data st).
        (p \<in> set (w_sleep st) \<and> c \<in> set (w_sleep st)) \<or>
        (p \<in> set (w_spin st) \<and> c \<in> set (w_spin st)))"

text \<open>
  The order graph is a directed acyclic graph without a redundant edge: no child is
  independently reachable from its parent.  (And \<^verbatim>\<open>itismychild\<close> is not running.)
\<close>

definition graph_ok :: "wstate \<Rightarrow> bool" where
  "graph_ok st \<longleftrightarrow>
     acyclic (edges (w_data st)) \<and> children_distinct (w_data st) \<and> partitioned st \<and>
     (\<forall>(p, c) \<in> edges (w_data st). \<not> independent (edges (w_data st)) p c) \<and>
     \<not> recursed st"

text \<open>
  A lock class is a class of sleep locks or a class of spin locks, not both: the
  header that defines \<^verbatim>\<open>LC_SLEEPLOCK\<close> and \<^verbatim>\<open>LC_SPINLOCK\<close> is outside the sources, and
  the three classes above are of this kind.
\<close>

definition class_ok :: "lock_class \<Rightarrow> bool" where
  "class_ok c \<longleftrightarrow> \<not> (LC_SLEEPLOCK (lc_flags c) \<and> LC_SPINLOCK (lc_flags c))"

text \<open>
  The registry: no witness is twice on the free list or both free and in use, \<^verbatim>\<open>w_all\<close>
  holds the witnesses of \<^verbatim>\<open>w_sleep\<close> and \<^verbatim>\<open>w_spin\<close>, the witness of a lock is in use, and
  every lock has a class of one kind.
\<close>

definition registry_ok :: "wstate \<Rightarrow> bool" where
  "registry_ok st \<longleftrightarrow>
     distinct (w_free st) \<and>
     set (w_free st) \<inter> set (w_all st) = {} \<and>
     set (w_sleep st) \<union> set (w_spin st) = set (w_all st) \<and>
     (\<forall>l w. lo_witness (locks st l) = Some w \<longrightarrow> w \<in> set (w_all st)) \<and>
     (\<forall>l. class_ok (lo_class (locks st l)))"

text \<open>Before \<^verbatim>\<open>witness_initialize\<close> has run no witness is free or in use.\<close>

definition cold_ok :: "wstate \<Rightarrow> bool" where
  "cold_ok st \<longleftrightarrow> (witness_cold st \<longrightarrow> w_free st = [] \<and> w_all st = [])"

text \<open>
  Two states with the same registry and the same graph: the lists of witnesses, the
  children and the class of every witness, the witness and the class of every lock,
  \<^verbatim>\<open>recursed\<close> and \<^verbatim>\<open>witness_cold\<close> are the same.
\<close>

definition same_graph :: "wstate \<Rightarrow> wstate \<Rightarrow> bool" where
  "same_graph st st' \<longleftrightarrow>
     w_free st' = w_free st \<and> w_all st' = w_all st \<and> w_sleep st' = w_sleep st \<and>
     w_spin st' = w_spin st \<and> recursed st' = recursed st \<and>
     witness_cold st' = witness_cold st \<and>
     (\<forall>w. w_children (w_data st' w) = w_children (w_data st w) \<and>
          w_class (w_data st' w) = w_class (w_data st w)) \<and>
     (\<forall>l. lo_witness (locks st' l) = lo_witness (locks st l) \<and>
          lo_class (locks st' l) = lo_class (locks st l))"

section \<open>Runs of the verifier\<close>

text \<open>
  The calls that reach the verifier, from the lock primitives and from the rest of the
  kernel: its entry points, and three events of its environment.  \<open>Primitive\<close> is a lock
  primitive writing the class, the name and the flag word of a lock object (as the
  primitives do before they call \<^verbatim>\<open>witness_init\<close>, \<^verbatim>\<open>witness_lock\<close> or \<^verbatim>\<open>witness_unlock\<close>);
  \<open>Panicking\<close> is the kernel setting \<^verbatim>\<open>panicstr\<close>; \<open>Display\<close> is the debugger command
  that runs \<^verbatim>\<open>witness_display\<close>, of which the model keeps the call of
  \<^verbatim>\<open>witness_levelall\<close> (what it prints goes to the debugger, not to the console).
\<close>

datatype call =
    Initialize
  | Init nat
  | Destroy nat
  | Lock nat lop_flagset string int nat nat
  | Unlock nat lop_flagset string int nat nat
  | Sleep bool "nat option" string int nat nat
  | Restore nat string int
  | Display
  | Primitive nat lock_class string lo_flagset
  | Panicking string



text \<open>
  What the kernel keeps to: \<^verbatim>\<open>witness_initialize\<close> runs once (it is a \<^verbatim>\<open>SYSINIT\<close>), while
  the verifier is cold, and every lock class is a class of one kind.  The first argument
  says whether \<^verbatim>\<open>witness_initialize\<close> is still to run.
\<close>

fun admissible :: "bool \<Rightarrow> call list \<Rightarrow> bool" where
  "admissible cold [] = True"
| "admissible cold (Initialize # cs) = (cold \<and> admissible False cs)"
| "admissible cold (Primitive lock class name flags # cs) =
     (class_ok class \<and> admissible cold cs)"
| "admissible cold (c # cs) = admissible cold cs"

text \<open>
  The state at boot: the static data of the verifier as the source initialises it
  (\<^verbatim>\<open>witness_cold\<close> is 1, everything else zero or empty), no lock object written yet.
  \<^verbatim>\<open>witness_watch\<close> and \<^verbatim>\<open>witness_skipspin\<close> are set from the kernel configuration and
  from tunables; they are arguments, like the constants \<open>MAXCPU\<close> and \<open>LOCK_NCHILDREN\<close>
  and the addresses of \<^verbatim>\<open>Giant\<close> and \<^verbatim>\<open>all_mtx\<close>.
\<close>

definition zero_object :: lock_object where
  "zero_object =
     \<lparr> lo_class = \<lparr> lc_addr = 0, lc_name = [],
                     lc_flags = \<lparr> LC_SLEEPLOCK = False, LC_SPINLOCK = False,
                                  LC_SLEEPABLE = False, LC_RECURSABLE = False \<rparr> \<rparr>,
       lo_name = [], lo_file = None, lo_line = 0,
       lo_flags = \<lparr> LO_INITIALIZED = False, LO_WITNESS = False, LO_RECURSABLE = False,
                    LO_SLEEPABLE = False, LO_LOCKED = False, LO_RECURSED = False \<rparr>,
       lo_witness = None \<rparr>"

definition boot :: "nat \<Rightarrow> nat \<Rightarrow> nat \<Rightarrow> nat \<Rightarrow> int \<Rightarrow> int \<Rightarrow> wstate" where
  "boot maxcpu nchildren giant allmtx watch skipspin =
     \<lparr> MAXCPU = maxcpu, LOCK_NCHILDREN = nchildren, Giant = giant, all_mtx = allmtx,
       witness_watch = watch, witness_skipspin = skipspin,
       witness_cold = True, witness_dead = False, panicstr = None, recursed = False,
       w_free = [], w_all = [], w_spin = [], w_sleep = [], w_child_free = 0,
       w_lock_list_free = 0, w_data = (\<lambda>w. zero_witness),
       locks = (\<lambda>l. zero_object),
       all_locks = [], lock_cur_cnt = 0, lock_max_cnt = 0,
       p_sleeplocks = (\<lambda>p. []), spinlocks = (\<lambda>cpu. []), console = [] \<rparr>"

text \<open>The names and the classes of the entries of an order list.\<close>

fun order_names :: "(string \<times> lock_class) option list \<Rightarrow> string list" where
  "order_names [] = []"
| "order_names (None # order) = order_names order"
| "order_names (Some (name, class) # order) = name # order_names order"

fun order_classes :: "(string \<times> lock_class) option list \<Rightarrow> lock_class list" where
  "order_classes [] = []"
| "order_classes (None # order) = order_classes order"
| "order_classes (Some (name, class) # order) = class # order_classes order"

text \<open>The reports of the verifier about duplicates and about lock order.\<close>

fun is_report :: "event \<Rightarrow> bool" where
  "is_report (DuplicateLock w name file1 line1 file2 line2) = True"
| "is_report (LockOrderReversal w w1 lock1 lock giant fl line) = True"
| "is_report e = False"

section \<open>Properties\<close>

subsection \<open>Pool exhaustion and the dead flag\<close>

text \<open>
  Claim C2.  Each of the three pools, when it is empty, answers a request with the null
  result and sets \<^verbatim>\<open>witness_dead\<close> (it prints "witness exhausted" and does not panic).
  In every state with \<^verbatim>\<open>witness_dead\<close> set, \<^verbatim>\<open>witness_lock\<close> and \<^verbatim>\<open>witness_unlock\<close> return
  at once, normally, and leave the whole state as it is: nothing is checked, reported or
  changed, and the caller's lock operation is not disturbed.
\<close>

theorem pool_exhaustion_sets_dead:
  "(w_free st = [] \<longrightarrow>
      witness_get st = (None, st\<lparr>witness_dead := True,
                                  console := console st @ [Exhausted ''witness_get'']\<rparr>)) \<and>
   (w_child_free st = 0 \<longrightarrow>
      witness_child_get st = (None, st\<lparr>witness_dead := True,
                                  console := console st @ [Exhausted ''witness_child_get'']\<rparr>)) \<and>
   (w_lock_list_free st = 0 \<longrightarrow>
      witness_lock_list_get st = (None, st\<lparr>witness_dead := True,
                                  console := console st @ [Exhausted ''witness_lock_list_get'']\<rparr>)) \<and>
   (witness_dead st \<longrightarrow>
      witness_lock lock flags file line p cpu st = Some (Inr st) \<and>
      witness_unlock lock flags file line p cpu st = Inr st)"
  by (simp add: witness_get_def witness_child_get_def witness_lock_list_get_def
        witness_lock_def witness_unlock_def)

theorem pool_exhaustion_sets_dead_witness:
  "w_free ex_dead = [] \<and> w_child_free ex_dead = 0 \<and> w_lock_list_free ex_dead = 0 \<and>
   witness_dead ex_dead \<and> lo_witness (locks ex_dead 5) = Some 0 \<and>
   fst (witness_get ex_dead) = None \<and> witness_dead (snd (witness_get ex_dead)) \<and>
   fst (witness_child_get ex_dead) = None \<and>
   fst (witness_lock_list_get ex_dead) = None \<and>
   witness_lock 5 (ex_flags False) ''f.c'' 1 0 0 ex_dead = Some (Inr ex_dead) \<and>
   witness_unlock 5 (ex_flags False) ''f.c'' 2 0 0 ex_dead = Inr ex_dead"
  using pool_exhaustion_sets_dead [of ex_dead 5 "ex_flags False" "''f.c''" 1 0 0]
        pool_exhaustion_sets_dead [of ex_dead 5 "ex_flags False" "''f.c''" 2 0 0]
  by (simp add: ex_dead_def ex_warm_def ex_object_def)

subsection \<open>Release\<close>

lemma lle_remove_absent:
  "lock \<notin> set (concat chain) \<Longrightarrow> lle_remove lock chain = None"
  by (induction chain) auto



text \<open>
  Claim C3, as amended.  The claim says that releasing a watched, non-recursed lock that
  is on no chunk of the caller's held-lock list is a fatal error.  The search loop of
  \<^verbatim>\<open>witness_unlock\<close> has no such case: when it finds no entry the function returns and
  the state is as before.  (The one panic a non-recursed release can raise does not
  depend on the search: a sleep lock released without \<^verbatim>\<open>LOP_NOSWITCH\<close> while the
  processor holds spin locks.)
\<close>

lemma witness_unlock_checked:
  "checked lock st \<Longrightarrow>
   witness_unlock lock flags file line p cpu st =
     (if LC_SLEEPLOCK (lc_flags (lo_class (locks st lock))) \<and> \<not> LOP_NOSWITCH flags \<and>
         spinlocks st cpu \<noteq> []
      then Inl (Panic ''switchable sleep unlock'')
      else Inr (unlock_search (list_of lock p cpu st) lock st))"
  by (auto simp add: witness_unlock_def checked_def list_of_def Let_def)

theorem unlock_not_held_returns:
  assumes "checked lock st"
    and "lock \<notin> set (concat (get_list (list_of lock p cpu st) st))"
  shows "witness_unlock lock flags file line p cpu st =
     (if LC_SLEEPLOCK (lc_flags (lo_class (locks st lock))) \<and> \<not> LOP_NOSWITCH flags \<and>
         spinlocks st cpu \<noteq> []
      then Inl (Panic ''switchable sleep unlock'') else Inr st)"
  using assms lle_remove_absent [of lock "get_list (list_of lock p cpu st) st"]
  by (simp add: witness_unlock_checked unlock_search_def)

theorem unlock_not_held_returns_witness:
  "checked 5 ex_unheld \<and>
   5 \<notin> set (concat (get_list (list_of 5 0 0 ex_unheld) ex_unheld)) \<and>
   witness_unlock 5 (ex_flags False) ''f.c'' 2 0 0 ex_unheld = Inr ex_unheld"
proof -
  have h1: "checked 5 ex_unheld"
    by (simp add: checked_def ex_unheld_def ex_warm_def ex_object_def)
  have h2: "5 \<notin> set (concat (get_list (list_of 5 0 0 ex_unheld) ex_unheld))"
    by (simp add: list_of_def ex_unheld_def ex_warm_def ex_object_def lock_class_mtx_sleep_def)
  have "spinlocks ex_unheld 0 = []"
    by (simp add: ex_unheld_def ex_warm_def)
  with unlock_not_held_returns [OF h1 h2, of "ex_flags False" "''f.c''" 2] h1 h2
  show ?thesis by simp
qed

theorem unlock_not_held_counterexample:
  "lo_witness (locks ex_unheld 5) = Some 0 \<and>
   \<not> LO_RECURSED (lo_flags (locks ex_unheld 5)) \<and>
   \<not> witness_cold ex_unheld \<and> \<not> witness_dead ex_unheld \<and>
   5 \<notin> set (concat (p_sleeplocks ex_unheld 0)) \<and>
   5 \<notin> set (concat (spinlocks ex_unheld 0)) \<and>
   witness_unlock 5 (ex_flags False) ''f.c'' 2 0 0 ex_unheld = Inr ex_unheld"
proof -
  have f: "lo_witness (locks ex_unheld 5) = Some 0"
    "\<not> LO_RECURSED (lo_flags (locks ex_unheld 5))"
    "\<not> witness_cold ex_unheld" "\<not> witness_dead ex_unheld" "panicstr ex_unheld = None"
    "p_sleeplocks ex_unheld 0 = []" "spinlocks ex_unheld 0 = []"
    "LC_SLEEPLOCK (lc_flags (lo_class (locks ex_unheld 5)))"
    by (simp_all add: ex_unheld_def ex_warm_def ex_object_def lock_class_mtx_sleep_def)
  show ?thesis
    by (simp add: witness_unlock_def unlock_search_def f)
qed




subsection \<open>About to sleep\<close>

lemma sleep_loop_count:
  "fst (sleep_loop check_only lock file line held (n, st)) =
     n + int (length (filter (\<lambda>lock1. Some lock1 \<noteq> lock \<and> lock1 \<noteq> Giant st \<and>
                                 \<not> LO_SLEEPABLE (lo_flags (locks st lock1))) held))"
proof (induction held arbitrary: n st)
  case Nil
  show ?case by simp
next
  case (Cons lock1 held)
  show ?case
    by (simp add: Cons.IH)
qed

lemma sleep_loop_frame:
  "Giant (snd (sleep_loop check_only lock file line held (n, st))) = Giant st \<and>
   locks (snd (sleep_loop check_only lock file line held (n, st))) = locks st"
proof (induction held arbitrary: n st)
  case Nil
  show ?case by simp
next
  case (Cons lock1 held)
  show ?case
    by (simp add: Cons.IH)
qed

lemma length_filter_scan_order:
  "length (filter P (scan_order lle)) = length (filter P (concat lle))"
  by (induction lle) (simp_all add: scan_order_def rev_filter [symmetric])

text \<open>
  Claim C6, as amended.  In a state that is not dead and with no panic in progress, the
  count \<^verbatim>\<open>witness_sleep\<close> returns is the number of entries on the held-lock lists of the
  calling process and of its processor whose lock is neither the lock passed in, nor
  Giant, nor marked \<^verbatim>\<open>LO_SLEEPABLE\<close>.  The claim leaves out that Giant is exempt too.
\<close>

theorem witness_sleep_count:
  assumes "\<not> witness_dead st" and "panicstr st = None"
  shows "fst (witness_sleep check_only lock file line p cpu st) =
     int (length (filter (\<lambda>lock1. Some lock1 \<noteq> lock \<and> lock1 \<noteq> Giant st \<and>
                                 \<not> LO_SLEEPABLE (lo_flags (locks st lock1)))
                    (concat (p_sleeplocks st p) @ concat (spinlocks st cpu))))"
proof -
  obtain n st1 where s1:
    "sleep_loop check_only lock file line (scan_order (p_sleeplocks st p)) (0, st) = (n, st1)"
    by (cases "sleep_loop check_only lock file line (scan_order (p_sleeplocks st p)) (0, st)")
  from sleep_loop_count [of check_only lock "file" line "scan_order (p_sleeplocks st p)" 0 st]
  have n: "n = int (length (filter (\<lambda>lock1. Some lock1 \<noteq> lock \<and> lock1 \<noteq> Giant st \<and>
                \<not> LO_SLEEPABLE (lo_flags (locks st lock1))) (concat (p_sleeplocks st p))))"
    by (simp add: s1 length_filter_scan_order)
  from sleep_loop_frame [of check_only lock "file" line "scan_order (p_sleeplocks st p)" 0 st]
  have f: "Giant st1 = Giant st" "locks st1 = locks st"
    by (simp_all add: s1)
  from assms show ?thesis
    by (simp add: witness_sleep_def s1 sleep_loop_count f n length_filter_scan_order)
qed

theorem witness_sleep_count_witness:
  "\<not> witness_dead ex_sleepy \<and> panicstr ex_sleepy = None \<and>
   concat (p_sleeplocks ex_sleepy 0) = [6] \<and> concat (spinlocks ex_sleepy 0) = [7] \<and>
   LO_SLEEPABLE (lo_flags (locks ex_sleepy 6)) \<and>
   LC_SPINLOCK (lc_flags (lo_class (locks ex_sleepy 7))) \<and>
   fst (witness_sleep False None ''f.c'' 3 0 0 ex_sleepy) = 1"
proof -
  have f: "\<not> witness_dead ex_sleepy" "panicstr ex_sleepy = None"
    "p_sleeplocks ex_sleepy 0 = [[6]]" "spinlocks ex_sleepy 0 = [[7]]"
    "LO_SLEEPABLE (lo_flags (locks ex_sleepy 6))"
    "\<not> LO_SLEEPABLE (lo_flags (locks ex_sleepy 7))"
    "LC_SPINLOCK (lc_flags (lo_class (locks ex_sleepy 7)))"
    "Giant ex_sleepy = 0"
    by (simp_all add: ex_sleepy_def ex_warm_def ex_object_def lock_class_mtx_spin_def)
  from witness_sleep_count [OF f(1,2), of False None "''f.c''" 3 0 0] f
  show ?thesis by simp
qed

theorem witness_sleep_count_counterexample:
  "\<not> witness_dead ex_giant_held \<and> panicstr ex_giant_held = None \<and>
   claimed_unsafe_count None 0 0 ex_giant_held = 1 \<and>
   fst (witness_sleep False None ''f.c'' 3 0 0 ex_giant_held) = 0"
proof -
  have f: "\<not> witness_dead ex_giant_held" "panicstr ex_giant_held = None"
    "p_sleeplocks ex_giant_held 0 = [[0]]" "spinlocks ex_giant_held 0 = []"
    "\<not> LO_SLEEPABLE (lo_flags (locks ex_giant_held 0))"
    "Giant ex_giant_held = 0"
    by (simp_all add: ex_giant_held_def ex_warm_def ex_object_def)
  show ?thesis
    by (simp add: f claimed_unsafe_count_def witness_sleep_def scan_order_def)
qed

subsection \<open>Enrolling a name that is present\<close>






subsection \<open>Acquisition with the try-lock flag\<close>


lemma get_set_list [simp]:
  "get_list ll (set_list ll lle st) = lle"
  by (cases ll) simp_all

lemma set_list_frame [simp]:
  "w_data (set_list ll lle st) = w_data st"
  "locks (set_list ll lle st) = locks st"
  "console (set_list ll lle st) = console st"
  "witness_dead (set_list ll lle st) = witness_dead st"
  "witness_cold (set_list ll lle st) = witness_cold st"
  "panicstr (set_list ll lle st) = panicstr st"
  "w_lock_list_free (set_list ll lle st) = w_lock_list_free st"
  "w_child_free (set_list ll lle st) = w_child_free st"
  "w_free (set_list ll lle st) = w_free st"
  "w_all (set_list ll lle st) = w_all st"
  "w_sleep (set_list ll lle st) = w_sleep st"
  "w_spin (set_list ll lle st) = w_spin st"
  "Giant (set_list ll lle st) = Giant st"
  "MAXCPU (set_list ll lle st) = MAXCPU st"
  "LOCK_NCHILDREN (set_list ll lle st) = LOCK_NCHILDREN st"
  "witness_watch (set_list ll lle st) = witness_watch st"
  "witness_skipspin (set_list ll lle st) = witness_skipspin st"
  "recursed (set_list ll lle st) = recursed st"
  by (cases ll; simp)+

lemma get_list_frame [simp]:
  "get_list ll (st\<lparr>w_data := d\<rparr>) = get_list ll st"
  "get_list ll (st\<lparr>locks := lk\<rparr>) = get_list ll st"
  "get_list ll (st\<lparr>console := c\<rparr>) = get_list ll st"
  "get_list ll (st\<lparr>witness_dead := b\<rparr>) = get_list ll st"
  "get_list ll (st\<lparr>w_lock_list_free := n\<rparr>) = get_list ll st"
  "get_list ll (st\<lparr>w_child_free := n\<rparr>) = get_list ll st"
  "get_list ll (st\<lparr>recursed := b\<rparr>) = get_list ll st"
  by (cases ll; simp)+






subsection \<open>Frame lemmas\<close>

lemma check_frame_refl [simp]: "check_frame st st"
  by (simp add: check_frame_def)

lemma check_frame_trans:
  "check_frame st st1 \<Longrightarrow> check_frame st1 st2 \<Longrightarrow> check_frame st st2"
  by (simp add: check_frame_def)

lemma data_frame_refl [simp]: "data_frame d d"
  by (simp add: data_frame_def)

lemma data_frame_trans:
  "data_frame d d1 \<Longrightarrow> data_frame d1 d2 \<Longrightarrow> data_frame d d2"
  by (simp add: data_frame_def)

lemma console_exhausted_refl [simp]: "console_exhausted st st"
  by (simp add: console_exhausted_def)

lemma console_exhausted_trans:
  assumes "console_exhausted st st1" and "console_exhausted st1 st2"
  shows "console_exhausted st st2"
proof -
  from assms obtain es1 es2 where
    "console st1 = console st @ es1" "\<forall>e \<in> set es1. \<exists>f. e = Exhausted f"
    "console st2 = console st1 @ es2" "\<forall>e \<in> set es2. \<exists>f. e = Exhausted f"
    unfolding console_exhausted_def by blast
  then have "console st2 = console st @ (es1 @ es2) \<and> (\<forall>e \<in> set (es1 @ es2). \<exists>f. e = Exhausted f)"
    by auto
  then show ?thesis
    unfolding console_exhausted_def by blast
qed

lemma graph_frame_refl [simp]: "graph_frame st st"
  by (simp add: graph_frame_def)

lemma graph_frame_trans:
  "graph_frame st st1 \<Longrightarrow> graph_frame st1 st2 \<Longrightarrow> graph_frame st st2"
  unfolding graph_frame_def
  using check_frame_trans data_frame_trans console_exhausted_trans by blast

lemma graph_frame_recursed [simp]:
  "graph_frame st (st'\<lparr>recursed := b\<rparr>) = graph_frame st st'"
  "graph_frame (st\<lparr>recursed := b\<rparr>) st' = graph_frame st st'"
  by (simp_all add: graph_frame_def check_frame_def console_exhausted_def)

lemma graph_frame_child_get:
  "witness_child_get st = (r, st') \<Longrightarrow> graph_frame st st'"
  by (auto simp add: witness_child_get_def graph_frame_def check_frame_def console_exhausted_def
        split: if_splits)

lemma graph_frame_child_free: "graph_frame st (witness_child_free st)"
  by (simp add: witness_child_free_def graph_frame_def check_frame_def console_exhausted_def)

lemma graph_frame_set_children: "graph_frame st (set_children parent chain st)"
  by (simp add: set_children_def graph_frame_def check_frame_def console_exhausted_def
        data_frame_def)

lemma graph_frame_removechild: "graph_frame st (removechild parent child st)"
proof (cases "wcl_remove child (w_children (w_data st parent))")
  case None
  then show ?thesis by (simp add: removechild_def)
next
  case (Some r)
  obtain chain freed where r: "r = (chain, freed)" by (cases r)
  have "removechild parent child st =
      (if freed then witness_child_free (set_children parent chain st)
       else set_children parent chain st)"
    by (simp add: removechild_def Some r set_children_def Let_def)
  then show ?thesis
    using graph_frame_trans [OF graph_frame_set_children graph_frame_child_free]
      graph_frame_set_children
    by simp
qed

lemma graph_frame_insert:
  assumes "itismychild_insert parent child st = Inr (r, st')"
  shows "graph_frame st st'"
proof -
  from assms obtain pc cc where
    c: "w_class (w_data st parent) = Some pc" "w_class (w_data st child) = Some cc"
    by (auto simp add: itismychild_insert_def split: option.splits)
  show ?thesis
  proof (cases "wcl_insert child (w_children (w_data st parent))")
    case (Some chain)
    with assms c have "st' = set_children parent chain st"
      by (auto simp add: itismychild_insert_def split: if_splits)
    then show ?thesis by (simp add: graph_frame_set_children)
  next
    case None
    obtain g st1 where g: "witness_child_get st = (g, st1)"
      by (cases "witness_child_get st")
    show ?thesis
    proof (cases g)
      case None
      with assms c \<open>wcl_insert child (w_children (w_data st parent)) = None\<close> g
      have "st' = st1"
        by (auto simp add: itismychild_insert_def split: if_splits)
      with graph_frame_child_get [OF g] show ?thesis by simp
    next
      case (Some wcl)
      with assms c \<open>wcl_insert child (w_children (w_data st parent)) = None\<close> g
      have "st' = set_children parent (w_children (w_data st1 parent) @ [wcl @ [child]]) st1"
        by (auto simp add: itismychild_insert_def split: if_splits)
      with graph_frame_trans [OF graph_frame_child_get [OF g] graph_frame_set_children]
      show ?thesis by simp
    qed
  qed
qed

lemma graph_frame_prune_parents:
  "prune_parents child ps st = Some (Inr st') \<Longrightarrow> graph_frame st st'"
proof (induction ps arbitrary: st)
  case Nil
  then show ?case by simp
next
  case (Cons parent ps)
  show ?case
  proof (cases "isitmychild (w_data st) parent child")
    case False
    with Cons show ?thesis by simp
  next
    case True
    let ?st1 = "removechild parent child st"
    from Cons.prems True obtain b where b: "isitmydescendant (w_data ?st1) parent child = Some b"
      by (cases "isitmydescendant (w_data ?st1) parent child") (simp_all add: Let_def)
    show ?thesis
    proof (cases b)
      case True
      with Cons.prems \<open>isitmychild (w_data st) parent child\<close> b
      have "prune_parents child ps ?st1 = Some (Inr st')"
        by (simp add: Let_def)
      from graph_frame_trans [OF graph_frame_removechild Cons.IH [OF this]]
      show ?thesis .
    next
      case False
      with Cons.prems \<open>isitmychild (w_data st) parent child\<close> b
      obtain r st2 where i: "itismychild_insert parent child ?st1 = Inr (r, st2)"
        and p: "prune_parents child ps st2 = Some (Inr st')"
        by (cases "itismychild_insert parent child ?st1") (auto simp add: Let_def)
      from graph_frame_trans [OF graph_frame_removechild
          graph_frame_trans [OF graph_frame_insert [OF i] Cons.IH [OF p]]]
      show ?thesis .
    qed
  qed
qed

lemma graph_frame_prune_children:
  "prune_children cs list st = Some (Inr st') \<Longrightarrow> graph_frame st st'"
proof (induction cs arbitrary: st)
  case Nil
  then show ?case by simp
next
  case (Cons child cs)
  from Cons.prems obtain st1 where
    p: "prune_parents child list st = Some (Inr st1)"
    and c: "prune_children cs list st1 = Some (Inr st')"
    by (auto split: option.splits sum.splits)
  from graph_frame_trans [OF graph_frame_prune_parents [OF p] Cons.IH [OF c]]
  show ?case .
qed

lemma level_frame_refl [simp]: "level_frame d d"
  by (simp add: level_frame_def)

lemma level_frame_trans:
  assumes "level_frame d d1" and "level_frame d1 d2"
  shows "level_frame d d2"
  unfolding level_frame_def
proof
  fix w
  from assms have "d1 w = (d w)\<lparr>w_level := w_level (d1 w)\<rparr>"
    and "d2 w = (d1 w)\<lparr>w_level := w_level (d2 w)\<rparr>"
    by (simp_all add: level_frame_def)
  then have "d2 w = ((d w)\<lparr>w_level := w_level (d1 w)\<rparr>)\<lparr>w_level := w_level (d2 w)\<rparr>"
    by simp
  then show "d2 w = (d w)\<lparr>w_level := w_level (d2 w)\<rparr>"
    by simp
qed

lemma level_frame_update: "level_frame d (d(w := (d w)\<lparr>w_level := n\<rparr>))"
  by (simp add: level_frame_def)


lemma level_frame_leveldescendents_loop:
  assumes "witness_leveldescendents_loop ps level d = Some d'"
  shows "level_frame d d'"
  using assms
proof (induct rule: witness_leveldescendents_loop.raw_induct [rotated 1, consumes 1])
  case (1 loop ps level d d')
  show ?case
  proof (cases ps)
    case Nil
    with 1(2) show ?thesis by simp
  next
    case (Cons parent rest)
    let ?d1 = "if w_level (d parent) < level then d(parent := (d parent)\<lparr>w_level := level\<rparr>) else d"
    from 1(2) Cons obtain d2 where
      a: "loop (concat (w_children (?d1 parent))) (level + 1) ?d1 = Some d2"
      and b: "loop rest level d2 = Some d'"
      by (auto simp add: Let_def split: Option.bind_splits)
    have "level_frame d ?d1"
      by (simp add: level_frame_update)
    from level_frame_trans [OF this level_frame_trans [OF 1(1) [OF a] 1(1) [OF b]]]
    show ?thesis .
  qed
qed

lemma level_frame_clear_levels: "level_frame d (clear_levels ws d)"
proof (induction ws arbitrary: d)
  case Nil
  show ?case by simp
next
  case (Cons w ws)
  have "level_frame d (d(w := (d w)\<lparr>w_level := 0\<rparr>))"
    by (rule level_frame_update)
  moreover have "level_frame (d(w := (d w)\<lparr>w_level := 0\<rparr>))
      (clear_levels ws (d(w := (d w)\<lparr>w_level := 0\<rparr>)))"
    by (rule Cons.IH)
  ultimately have "level_frame d (clear_levels ws (d(w := (d w)\<lparr>w_level := 0\<rparr>)))"
    by (rule level_frame_trans)
  then show ?case by simp
qed

lemma level_frame_levelall_loop:
  "levelall_loop sl sp ws d = Some (Inr d') \<Longrightarrow> level_frame d d'"
proof (induction ws arbitrary: d)
  case Nil
  then show ?case by simp
next
  case (Cons w ws)
  from Cons.prems obtain c where c: "w_class (d w) = Some c"
    by (cases "w_class (d w)") simp_all
  let ?list = "if LC_SLEEPLOCK (lc_flags c) then sl else sp"
  show ?case
  proof (cases "\<exists>w1 \<in> set ?list. isitmychild d w1 w")
    case True
    with Cons.prems c have "levelall_loop sl sp ws d = Some (Inr d')"
      by (simp add: Let_def)
    from Cons.IH [OF this] show ?thesis .
  next
    case False
    with Cons.prems c obtain d1 where
      a: "witness_leveldescendents w 0 d = Some d1"
      and b: "levelall_loop sl sp ws d1 = Some (Inr d')"
      by (cases "witness_leveldescendents w 0 d") (simp_all add: Let_def)
    from a have "level_frame d d1"
      by (simp add: witness_leveldescendents_def level_frame_leveldescendents_loop)
    from level_frame_trans [OF this Cons.IH [OF b]] show ?thesis .
  qed
qed

lemma level_frame_data_frame: "level_frame d d' \<Longrightarrow> data_frame d d'"
  unfolding level_frame_def data_frame_def
  by (metis witness.select_convs(1,2,4,5,7,8,9,10) witness.surjective witness.update_convs(6))

lemma witness_levelall_result:
  assumes "witness_levelall st = Some (Inr st')"
  shows "\<exists>d'. st' = st\<lparr>w_data := d'\<rparr> \<and> level_frame (w_data st) d'"
proof -
  from assms obtain d' where
    l: "levelall_loop (w_sleep st) (w_spin st) (w_all st) (clear_levels (w_all st) (w_data st)) =
          Some (Inr d')"
    and s: "st' = st\<lparr>w_data := d'\<rparr>"
    by (auto simp add: witness_levelall_def split: option.splits sum.splits)
  from level_frame_trans [OF level_frame_clear_levels level_frame_levelall_loop [OF l]] s
  show ?thesis by blast
qed

lemma graph_frame_levelall:
  assumes "witness_levelall st = Some (Inr st')"
  shows "graph_frame st st'"
proof -
  from witness_levelall_result [OF assms] obtain d' where
    "st' = st\<lparr>w_data := d'\<rparr>" "level_frame (w_data st) d'"
    by blast
  then show ?thesis
    by (simp add: graph_frame_def check_frame_def console_exhausted_def level_frame_data_frame)
qed

lemma graph_frame_itismychild:
  assumes "itismychild parent child st = Some (Inr (r, st'))"
  shows "graph_frame st st'"
proof -
  from assms obtain r1 st1 where i: "itismychild_insert parent child st = Inr (r1, st1)"
    by (cases "itismychild_insert parent child st") (auto simp add: itismychild_def)
  note f1 = graph_frame_insert [OF i]
  show ?thesis
  proof (cases "r1 = 1 \<or> recursed st1")
    case True
    with assms i have "st' = st1"
      by (auto simp add: itismychild_def split: if_splits)
    with f1 show ?thesis by simp
  next
    case False
    with assms i obtain pc where pc: "w_class (w_data st1 parent) = Some pc"
      by (cases "w_class (w_data st1 parent)") (auto simp add: itismychild_def)
    let ?st2 = "st1\<lparr>recursed := True\<rparr>"
    let ?list = "if LC_SLEEPLOCK (lc_flags pc) then w_sleep ?st2 else w_spin ?st2"
    from assms i False pc obtain st3 where
      p: "prune_children ?list ?list ?st2 = Some (Inr st3)"
      and l: "witness_levelall (st3\<lparr>recursed := False\<rparr>) = Some (Inr st')"
      by (auto simp add: itismychild_def Let_def split: option.splits sum.splits if_splits)
    from graph_frame_prune_children [OF p] have f2: "graph_frame st1 st3" by simp
    from graph_frame_levelall [OF l] have f3: "graph_frame st3 st'" by simp
    from graph_frame_trans [OF f1 graph_frame_trans [OF f2 f3]] show ?thesis .
  qed
qed

lemma check_frame_lock_dup:
  "witness_lock_dup lock w file line st = Inr st' \<Longrightarrow> check_frame st st'"
  by (auto simp add: witness_lock_dup_def check_frame_def split: if_splits sum.splits bool.splits)

lemma check_frame_lock_violation:
  "witness_lock_violation lock w lock1 w1 file line st = Inr st' \<Longrightarrow> check_frame st st'"
  by (auto simp add: witness_lock_violation_def check_frame_def
        split: if_splits sum.splits bool.splits)

lemma check_frame_lock_check:
  assumes "witness_lock_check ll lock w flags file line st = Some (Inr st')"
  shows "check_frame st st'"
proof (cases "LOP_TRYLOCK flags \<or> get_list ll st = []")
  case True
  with assms have "st' = st"
    by (auto simp add: witness_lock_check_def split: list.splits)
  then show ?thesis by simp
next
  case False
  then obtain lle rest where l: "get_list ll st = lle # rest"
    by (cases "get_list ll st") auto
  from assms False l obtain w1 where
    w1: "lle \<noteq> []" "lo_witness (locks st (last lle)) = Some w1"
    by (auto simp add: witness_lock_check_def split: if_splits option.splits)
  show ?thesis
  proof (cases "w1 = w")
    case True
    with assms False l w1 have "witness_lock_dup lock w file line st = Inr st'"
      by (simp add: witness_lock_check_def)
    then show ?thesis by (rule check_frame_lock_dup)
  next
    case False
    note neq = this
    show ?thesis
    proof (cases "witness_watch st > 1 \<and> w_level (w_data st w) > w_level (w_data st w1)")
      case True
      with assms \<open>\<not> (LOP_TRYLOCK flags \<or> get_list ll st = [])\<close> l w1 neq have "st' = st"
        by (simp add: witness_lock_check_def)
      then show ?thesis by simp
    next
      case False
      with assms \<open>\<not> (LOP_TRYLOCK flags \<or> get_list ll st = [])\<close> l w1 neq
      obtain b where b: "isitmydescendant (w_data st) w1 w = Some b"
        by (cases "isitmydescendant (w_data st) w1 w") (auto simp add: witness_lock_check_def)
      show ?thesis
      proof (cases b)
        case True
        with assms \<open>\<not> (LOP_TRYLOCK flags \<or> get_list ll st = [])\<close> l w1 neq False b
        have "st' = st"
          by (auto simp add: witness_lock_check_def)
        then show ?thesis by simp
      next
        case notdesc: False
        from assms \<open>\<not> (LOP_TRYLOCK flags \<or> get_list ll st = [])\<close> l w1 neq False b notdesc
        obtain h where h: "check_held (w_data st) (locks st) w (scan_order (lle # rest)) = Some h"
          by (cases "check_held (w_data st) (locks st) w (scan_order (lle # rest))")
             (auto simp add: witness_lock_check_def)
        show ?thesis
        proof (cases h)
          case None
          with assms \<open>\<not> (LOP_TRYLOCK flags \<or> get_list ll st = [])\<close> l w1 neq False b notdesc h
          obtain r where "itismychild w1 w st = Some (Inr (r, st'))"
            by (auto simp add: witness_lock_check_def split: option.splits sum.splits)
          from graph_frame_itismychild [OF this] show ?thesis
            by (simp add: graph_frame_def)
        next
          case (Some v)
          obtain lock1 w1' where v: "v = (lock1, w1')" by (cases v)
          with assms \<open>\<not> (LOP_TRYLOCK flags \<or> get_list ll st = [])\<close> l w1 neq False b notdesc h Some
          have "witness_lock_violation lock w lock1 w1' file line st = Inr st'"
            by (auto simp add: witness_lock_check_def)
          then show ?thesis by (rule check_frame_lock_violation)
        qed
      qed
    qed
  qed
qed

subsection \<open>Well-nested sequences\<close>










subsection \<open>The order graph\<close>

lemma edges_iff: "(p, c) \<in> edges d \<longleftrightarrow> c \<in> set (concat (w_children (d p)))"
  by (auto simp add: edges_def isitmychild_def)


lemma edges_cong:
  "(\<And>p. w_children (d' p) = w_children (d p)) \<Longrightarrow> edges d' = edges d"
  by (auto simp add: edges_iff)









lemma edges_update:
  "edges (d(parent := (d parent)\<lparr>w_children := chain\<rparr>)) =
     {(p, c). (p, c) \<in> edges d \<and> p \<noteq> parent} \<union> {parent} \<times> set (concat chain)"
proof -
  have "(p, c) \<in> edges (d(parent := (d parent)\<lparr>w_children := chain\<rparr>)) \<longleftrightarrow>
      (p, c) \<in> {(p, c). (p, c) \<in> edges d \<and> p \<noteq> parent} \<union> {parent} \<times> set (concat chain)"
    for p c
    by (cases "p = parent") (simp_all add: edges_iff del: set_concat)
  then show ?thesis by auto
qed

lemma edges_parent: "{c. (parent, c) \<in> edges d} = set (concat (w_children (d parent)))"
  by (simp add: edges_iff del: set_concat)















subsection \<open>States with the same graph\<close>

lemma same_graph_refl [simp]: "same_graph st st"
  by (simp add: same_graph_def)

lemma same_graph_trans: "same_graph st st1 \<Longrightarrow> same_graph st1 st2 \<Longrightarrow> same_graph st st2"
  by (simp add: same_graph_def)

lemma same_graph_edges: "same_graph st st' \<Longrightarrow> edges (w_data st') = edges (w_data st)"
  by (rule edges_cong) (simp add: same_graph_def)

lemma same_graph_graph_ok:
  assumes "same_graph st st'" and "graph_ok st"
  shows "graph_ok st'"
proof -
  note e = same_graph_edges [OF assms(1)]
  from assms(1) have
    l: "w_sleep st' = w_sleep st" "w_spin st' = w_spin st" "recursed st' = recursed st"
    and c: "\<And>w. w_class (w_data st' w) = w_class (w_data st w)"
    and k: "\<And>w. w_children (w_data st' w) = w_children (w_data st w)"
    by (simp_all add: same_graph_def)
  from assms(2) have "partitioned st" by (simp add: graph_ok_def)
  then have "partitioned st'"
    unfolding partitioned_def e l c .
  moreover from assms(2) have "children_distinct (w_data st)" by (simp add: graph_ok_def)
  then have "children_distinct (w_data st')"
    unfolding children_distinct_def k .
  ultimately show ?thesis
    using assms(2) by (simp add: graph_ok_def e l)
qed

lemma same_graph_registry_ok:
  "same_graph st st' \<Longrightarrow> registry_ok st \<Longrightarrow> registry_ok st'"
  unfolding same_graph_def registry_ok_def by metis

lemma same_graph_cold_ok:
  "same_graph st st' \<Longrightarrow> cold_ok st \<Longrightarrow> cold_ok st'"
  by (simp add: same_graph_def cold_ok_def)


lemma partitioned_edge:
  assumes "partitioned st" and "(p, c) \<in> edges (w_data st)"
  shows "(p \<in> set (w_sleep st) \<and> c \<in> set (w_sleep st)) \<or>
     (p \<in> set (w_spin st) \<and> c \<in> set (w_spin st))"
  using assms unfolding partitioned_def by blast

lemma partitioned_sleep:
  assumes "partitioned st" and "w \<in> set (w_sleep st)"
  shows "\<exists>c. w_class (w_data st w) = Some c \<and> LC_SLEEPLOCK (lc_flags c) \<and>
     \<not> LC_SPINLOCK (lc_flags c)"
  using assms unfolding partitioned_def by blast

lemma partitioned_spin:
  assumes "partitioned st" and "w \<in> set (w_spin st)"
  shows "\<exists>c. w_class (w_data st w) = Some c \<and> \<not> LC_SLEEPLOCK (lc_flags c) \<and>
     LC_SPINLOCK (lc_flags c)"
  using assms unfolding partitioned_def by blast

text \<open>A witness that is on neither list has no edge.\<close>

lemma partitioned_no_edge:
  assumes "partitioned st" and "w \<notin> set (w_sleep st) \<union> set (w_spin st)"
  shows "(w, x) \<notin> edges (w_data st)" and "(x, w) \<notin> edges (w_data st)"
    and "(w, x) \<notin> (edges (w_data st))\<^sup>+"
proof -
  show 1: "\<And>x. (w, x) \<notin> edges (w_data st)"
    using partitioned_edge [OF assms(1)] assms(2) by blast
  show "(x, w) \<notin> edges (w_data st)"
    using partitioned_edge [OF assms(1)] assms(2) by blast
  show "(w, x) \<notin> (edges (w_data st))\<^sup>+"
  proof
    assume "(w, x) \<in> (edges (w_data st))\<^sup>+"
    then obtain y where "(w, y) \<in> edges (w_data st)"
      by (auto elim: converse_tranclE)
    with 1 show False by simp
  qed
qed

subsection \<open>Learning an order keeps the graph a pruned directed acyclic graph\<close>


lemma check_frame_cold_ok:
  "check_frame st st' \<Longrightarrow> cold_ok st \<Longrightarrow> cold_ok st'"
  by (simp add: check_frame_def cold_ok_def)



subsection \<open>Enrolling keeps the registry and the graph\<close>

lemma w_all_find_Some:
  "w_all_find d description ws = Inr (Some w) \<Longrightarrow>
   w \<in> set ws \<and> w_name (d w) = Some description"
  by (induction ws) (auto split: option.splits if_splits)

text \<open>
  The three ways in which \<^verbatim>\<open>enroll\<close> returns: without a witness (nothing is watched, or
  the pool is exhausted), with the witness of that name, its reference count raised, or
  with the first witness of the free list, cleared and put on \<^verbatim>\<open>w_all\<close> and on the list
  of its kind.
\<close>

lemma enroll_cases:
  assumes "enroll description class st = Inr (r, st')"
  shows "(r = None \<and> (st' = st \<or>
            st' = st\<lparr>witness_dead := True,
                     console := console st @ [Exhausted ''witness_get'']\<rparr>)) \<or>
     (\<exists>w. r = Some w \<and> w \<in> set (w_all st) \<and> w_name (w_data st w) = Some description \<and>
        st' = st\<lparr>w_data := (w_data st)
                  (w := (w_data st w)\<lparr>w_refcount := w_refcount (w_data st w) + 1\<rparr>)\<rparr>) \<or>
     (\<exists>w ws. r = Some w \<and> w_free st = w # ws \<and>
        w_all_find (w_data st) description (w_all st) = Inr None \<and>
        st' = st\<lparr>w_free := ws,
                 w_data := (w_data st)
                   (w := zero_witness\<lparr>w_name := Some description, w_class := Some class,
                           w_refcount := 1\<rparr>),
                 w_all := w # w_all st,
                 w_spin := (if LC_SPINLOCK (lc_flags class) then w # w_spin st else w_spin st),
                 w_sleep := (if LC_SPINLOCK (lc_flags class) then w_sleep st
                             else w # w_sleep st)\<rparr> \<and>
        (\<not> LC_SPINLOCK (lc_flags class) \<longrightarrow> LC_SLEEPLOCK (lc_flags class)))"
proof (cases "witness_watch st = 0 \<or> (LC_SPINLOCK (lc_flags class) \<and> witness_skipspin st \<noteq> 0)")
  case True
  with assms have "r = None" "st' = st"
    by (auto simp add: enroll_def split: if_splits)
  then show ?thesis by simp
next
  case False
  then have g: "witness_watch st \<noteq> 0"
    "\<not> (LC_SPINLOCK (lc_flags class) \<and> witness_skipspin st \<noteq> 0)"
    by simp_all
  from assms g obtain found where f: "w_all_find (w_data st) description (w_all st) = Inr found"
    by (cases "w_all_find (w_data st) description (w_all st)") (simp_all add: enroll_def)
  show ?thesis
  proof (cases found)
    case (Some w)
    with assms g f have "r = Some w"
      "st' = st\<lparr>w_data := (w_data st)
                  (w := (w_data st w)\<lparr>w_refcount := w_refcount (w_data st w) + 1\<rparr>)\<rparr>"
      by (simp_all add: enroll_def Let_def split: if_splits)
    moreover from w_all_find_Some f Some have "w \<in> set (w_all st)"
      "w_name (w_data st w) = Some description"
      by blast+
    ultimately show ?thesis by blast
  next
    case None
    show ?thesis
    proof (cases "w_free st")
      case Nil
      with assms g f None have "r = None"
        "st' = st\<lparr>witness_dead := True, console := console st @ [Exhausted ''witness_get'']\<rparr>"
        by (simp_all add: enroll_def witness_get_def split: if_splits)
      then show ?thesis by simp
    next
      case (Cons w ws)
      with assms g f None have "r = Some w"
        "st' = st\<lparr>w_free := ws,
                 w_data := (w_data st)
                   (w := zero_witness\<lparr>w_name := Some description, w_class := Some class,
                           w_refcount := 1\<rparr>),
                 w_all := w # w_all st,
                 w_spin := (if LC_SPINLOCK (lc_flags class) then w # w_spin st else w_spin st),
                 w_sleep := (if LC_SPINLOCK (lc_flags class) then w_sleep st
                             else w # w_sleep st)\<rparr>"
        "\<not> LC_SPINLOCK (lc_flags class) \<longrightarrow> LC_SLEEPLOCK (lc_flags class)"
        by (simp_all add: enroll_def witness_get_def Let_def split: if_splits)
      with Cons f None show ?thesis by blast
    qed
  qed
qed

lemma enroll_inv:
  assumes en: "enroll description class st = Inr (r, st')"
    and g: "graph_ok st" and reg: "registry_ok st" and ok: "class_ok class"
  shows "graph_ok st'" and "registry_ok st'" and "\<forall>w. r = Some w \<longrightarrow> w \<in> set (w_all st')"
    and "set (w_all st) \<subseteq> set (w_all st')" and "locks st' = locks st"
    and "witness_cold st' = witness_cold st"
proof -
  from g have pt: "partitioned st" by (simp add: graph_ok_def)
  from reg have all: "set (w_all st) = set (w_sleep st) \<union> set (w_spin st)"
    and dis: "distinct (w_free st)" and dj: "set (w_free st) \<inter> set (w_all st) = {}"
    and lw: "\<And>l w. lo_witness (locks st l) = Some w \<Longrightarrow> w \<in> set (w_all st)"
    and lc: "\<And>l. class_ok (lo_class (locks st l))"
    by (simp_all add: registry_ok_def)
  have "graph_ok st' \<and> registry_ok st' \<and> (\<forall>w. r = Some w \<longrightarrow> w \<in> set (w_all st')) \<and>
      set (w_all st) \<subseteq> set (w_all st') \<and> locks st' = locks st \<and>
      witness_cold st' = witness_cold st"
    using enroll_cases [OF en]
  proof (elim disjE exE conjE)
    assume "r = None" "st' = st"
    with g reg show ?thesis by simp
  next
    assume r: "r = None"
      and s: "st' = st\<lparr>witness_dead := True,
                       console := console st @ [Exhausted ''witness_get'']\<rparr>"
    from s have "same_graph st st'" by (simp add: same_graph_def)
    from same_graph_graph_ok [OF this g] same_graph_registry_ok [OF this reg] r s
    show ?thesis by simp
  next
    fix w
    assume r: "r = Some w" and w: "w \<in> set (w_all st)"
      and s: "st' = st\<lparr>w_data := (w_data st)
                  (w := (w_data st w)\<lparr>w_refcount := w_refcount (w_data st w) + 1\<rparr>)\<rparr>"
    from s have "same_graph st st'" by (simp add: same_graph_def)
    from same_graph_graph_ok [OF this g] same_graph_registry_ok [OF this reg] r s w
    show ?thesis by simp
  next
    fix w ws
    assume r: "r = Some w" and fr: "w_free st = w # ws"
      and kind: "\<not> LC_SPINLOCK (lc_flags class) \<longrightarrow> LC_SLEEPLOCK (lc_flags class)"
      and s: "st' = st\<lparr>w_free := ws,
                 w_data := (w_data st)
                   (w := zero_witness\<lparr>w_name := Some description, w_class := Some class,
                           w_refcount := 1\<rparr>),
                 w_all := w # w_all st,
                 w_spin := (if LC_SPINLOCK (lc_flags class) then w # w_spin st else w_spin st),
                 w_sleep := (if LC_SPINLOCK (lc_flags class) then w_sleep st
                             else w # w_sleep st)\<rparr>"
    let ?nw = "zero_witness\<lparr>w_name := Some description, w_class := Some class,
                 w_refcount := 1\<rparr>"
    from s have f: "w_free st' = ws" "w_all st' = w # w_all st"
      "w_spin st' = (if LC_SPINLOCK (lc_flags class) then w # w_spin st else w_spin st)"
      "w_sleep st' = (if LC_SPINLOCK (lc_flags class) then w_sleep st else w # w_sleep st)"
      "w_data st' = (w_data st)(w := ?nw)" "locks st' = locks st" "recursed st' = recursed st"
      "witness_cold st' = witness_cold st"
      by simp_all
    from fr dj have wn: "w \<notin> set (w_all st)" by auto
    with all have wl: "w \<notin> set (w_sleep st) \<union> set (w_spin st)" by simp
    from fr dis have wf: "w \<notin> set ws" "distinct ws" by simp_all
    have E: "edges (w_data st') = edges (w_data st)"
    proof -
      have "(p, c) \<in> edges (w_data st') \<longleftrightarrow> (p, c) \<in> edges (w_data st)" for p c
      proof (cases "p = w")
        case True
        from partitioned_no_edge(1) [OF pt wl] have "(w, c) \<notin> edges (w_data st)" .
        moreover have "(w, c) \<notin> edges (w_data st')"
          by (simp add: edges_iff f zero_witness_def)
        ultimately show ?thesis using True by simp
      next
        case False
        then show ?thesis by (simp add: edges_iff f del: set_concat)
      qed
      then show ?thesis by auto
    qed
    from g have "children_distinct (w_data st)" by (simp add: graph_ok_def)
    then have cd: "children_distinct (w_data st')"
      by (simp add: children_distinct_def f zero_witness_def del: set_concat)
    from ok kind have cls: "LC_SPINLOCK (lc_flags class) \<Longrightarrow> \<not> LC_SLEEPLOCK (lc_flags class)"
      "\<not> LC_SPINLOCK (lc_flags class) \<Longrightarrow> LC_SLEEPLOCK (lc_flags class)"
      by (auto simp add: class_ok_def)
    have pt': "partitioned st'"
      unfolding partitioned_def E
    proof (intro conjI ballI)
      fix x assume x: "x \<in> set (w_sleep st')"
      show "\<exists>c. w_class (w_data st' x) = Some c \<and> LC_SLEEPLOCK (lc_flags c) \<and>
          \<not> LC_SPINLOCK (lc_flags c)"
      proof (cases "x = w")
        case True
        from x True wl have "\<not> LC_SPINLOCK (lc_flags class)"
          by (auto simp add: f split: if_splits)
        with cls True show ?thesis by (simp add: f)
      next
        case False
        with x have "x \<in> set (w_sleep st)" by (auto simp add: f split: if_splits)
        from partitioned_sleep [OF pt this] False show ?thesis by (simp add: f)
      qed
    next
      fix x assume x: "x \<in> set (w_spin st')"
      show "\<exists>c. w_class (w_data st' x) = Some c \<and> \<not> LC_SLEEPLOCK (lc_flags c) \<and>
          LC_SPINLOCK (lc_flags c)"
      proof (cases "x = w")
        case True
        from x True wl have "LC_SPINLOCK (lc_flags class)"
          by (auto simp add: f split: if_splits)
        with cls True show ?thesis by (simp add: f)
      next
        case False
        with x have "x \<in> set (w_spin st)" by (auto simp add: f split: if_splits)
        from partitioned_spin [OF pt this] False show ?thesis by (simp add: f)
      qed
    next
      fix x assume x: "x \<in> edges (w_data st)"
      obtain p c where pc: "x = (p, c)" by (cases x)
      from partitioned_edge [OF pt] x pc have
        "(p \<in> set (w_sleep st) \<and> c \<in> set (w_sleep st)) \<or>
         (p \<in> set (w_spin st) \<and> c \<in> set (w_spin st))" by simp
      then show "case x of (p, c) \<Rightarrow> (p \<in> set (w_sleep st') \<and> c \<in> set (w_sleep st')) \<or>
          (p \<in> set (w_spin st') \<and> c \<in> set (w_spin st'))"
        by (auto simp add: pc f)
    qed
    from g cd pt' f(7) have g': "graph_ok st'"
      unfolding graph_ok_def E by simp
    have all': "set (w_all st') = set (w_sleep st') \<union> set (w_spin st')"
      using all by (auto simp add: f)
    have dj': "set (w_free st') \<inter> set (w_all st') = {}"
      using dj fr wf by (auto simp add: f)
    have lw': "\<forall>l v. lo_witness (locks st' l) = Some v \<longrightarrow> v \<in> set (w_all st')"
      using lw by (auto simp add: f)
    from wf all' [symmetric] dj' lw' lc have reg': "registry_ok st'"
      unfolding registry_ok_def by (simp add: f)
    from g' reg' r show ?thesis by (auto simp add: f)
  qed
  then show "graph_ok st'" and "registry_ok st'" and "\<forall>w. r = Some w \<longrightarrow> w \<in> set (w_all st')"
    and "set (w_all st) \<subseteq> set (w_all st')" and "locks st' = locks st"
    and "witness_cold st' = witness_cold st"
    by simp_all
qed

subsection \<open>Acquisition keeps the registry and the graph\<close>



lemma check_held_Some:
  "check_held d lks w held = Some (Some (lock1, w1)) \<Longrightarrow>
   lock1 \<in> set held \<and> lo_witness (lks lock1) = Some w1 \<and> isitmydescendant d w w1 = Some True"
proof (induction held)
  case Nil
  then show ?case by simp
next
  case (Cons x held)
  show ?case
  proof (cases "lo_witness (lks x)")
    case None
    with Cons show ?thesis by auto
  next
    case (Some v)
    with Cons.prems obtain b where b: "isitmydescendant d w v = Some b"
      by (cases "isitmydescendant d w v") simp_all
    show ?thesis
    proof (cases b)
      case True
      with Cons.prems Some b show ?thesis by auto
    next
      case False
      with Cons.prems Some b have "check_held d lks w held = Some (Some (lock1, w1))" by simp
      from Cons.IH [OF this] show ?thesis by simp
    qed
  qed
qed




lemma same_graph_lock_out:
  "witness_lock_out ll lock w fl line st = Inr st' \<Longrightarrow> same_graph st st'"
  by (cases ll)
     (auto simp add: witness_lock_out_def witness_lock_list_get_def same_graph_def Let_def
        split: list.splits if_splits)



lemma witness_lock_cold:
  assumes "witness_lock lock flags fl line p cpu st = Some (Inr st')"
  shows "witness_cold st' = witness_cold st" and "w_free st' = w_free st"
    and "w_all st' = w_all st"
proof -
  have "witness_cold st' = witness_cold st \<and> w_free st' = w_free st \<and> w_all st' = w_all st"
  proof (cases "st' = st")
    case True
    then show ?thesis by simp
  next
    case False
    with assms obtain w where w: "lo_witness (locks st lock) = Some w"
      by (cases "lo_witness (locks st lock)") (auto simp add: witness_lock_def split: if_splits)
    let ?ll = "if LC_SLEEPLOCK (lc_flags (lo_class (locks st lock)))
               then Sleeplocks p else Spinlocks cpu"
    from assms False w obtain st1 where
      c: "witness_lock_check ?ll lock w flags fl line st = Some (Inr st1)"
      and o: "witness_lock_out ?ll lock w fl line st1 = Inr st'"
      by (auto simp add: witness_lock_def Let_def split: if_splits option.splits sum.splits)
    from check_frame_lock_check [OF c] same_graph_lock_out [OF o]
    show ?thesis by (simp add: same_graph_def check_frame_def)
  qed
  then show "witness_cold st' = witness_cold st" and "w_free st' = w_free st"
    and "w_all st' = w_all st"
    by simp_all
qed

subsection \<open>The searches return on a finite acyclic graph\<close>










subsection \<open>Learning an order and acquiring a lock return\<close>






subsection \<open>Well-nested sequences, continued\<close>








end
